theory Spec2Isabelle
  imports Main "HOL-Library.Word" "HOL-Library.AList"
begin

unbundle bit_operations_syntax

section \<open>Role assignment from the group roster (sda/services/service.go)\<close>

text \<open>
  The service reads the description string of every roster node and turns it into a
  PriFi identity: a role and a numeric id. Go strings are byte strings, so a description
  is a \<^typ>\<open>string\<close>; Go's \<^verbatim>\<open>int\<close> is a 64-bit signed integer on the platforms the
  program targets, modelled as an \<^typ>\<open>int\<close> with the range check of \<^verbatim>\<open>strconv.Atoi\<close>
  written out.
\<close>

datatype PriFiRole = Relay | Client | Trustee

record PriFiIdentity =
  Role :: PriFiRole
  Id :: int

datatype parse_error = UnableToParseId | InvalidRole | InvalidDescription

text \<open>
  \<^verbatim>\<open>strings.Split(description, " ")\<close>: the pieces between consecutive spaces, one more
  piece than there are spaces. \<open>Split_from w s\<close> scans \<open>s\<close> with the current piece \<open>w\<close>
  held in reverse.
\<close>

fun Split_from :: "string \<Rightarrow> string \<Rightarrow> string list" where
  "Split_from w [] = [rev w]"
| "Split_from w (c # cs) =
     (if c = CHR '' '' then rev w # Split_from [] cs else Split_from (c # w) cs)"

definition Split :: "string \<Rightarrow> string list" where
  "Split s = Split_from [] s"

text \<open>
  \<^verbatim>\<open>strconv.Atoi\<close> of the Go standard library: an optional sign, then one or more
  decimal digits and nothing else, and the value must fit a 64-bit signed integer.
  \<open>digits_from n s\<close> is the loop \<^verbatim>\<open>n = n*10 + int(ch - '0')\<close>, failing at the first
  byte that is not a digit (\<open>'0'\<close> is byte 48, \<open>'9'\<close> is byte 57).
\<close>

definition is_digit :: "char \<Rightarrow> bool" where
  "is_digit c = ((48::int) \<le> of_char c \<and> (of_char c :: int) \<le> 57)"

fun digits_from :: "int \<Rightarrow> string \<Rightarrow> int option" where
  "digits_from n [] = Some n"
| "digits_from n (c # cs) =
     (if is_digit c then digits_from (n * 10 + (of_char c - 48)) cs
      else None)"

definition Atoi :: "string \<Rightarrow> int option" where
  "Atoi s =
     (case s of
        [] \<Rightarrow> None
      | c # cs \<Rightarrow>
          (let body = (if c = CHR ''-'' \<or> c = CHR ''+'' then cs else s) in
           if body = [] then None
           else (case digits_from 0 body of
                   None \<Rightarrow> None
                 | Some n \<Rightarrow>
                     (let v = (if c = CHR ''-'' then - n else n) in
                      if - (2 ^ 63) \<le> v \<and> v \<le> 2 ^ 63 - 1 then Some v else None))))"

text \<open>\<^verbatim>\<open>parseDescription\<close>, branch for branch.\<close>

definition parseDescription :: "string \<Rightarrow> parse_error + PriFiIdentity" where
  "parseDescription description =
     (let desc = Split description in
      if length desc = 1 \<and> desc ! 0 = ''relay'' then Inr \<lparr>Role = Relay, Id = 0\<rparr>
      else if length desc = 2 then
        (case Atoi (desc ! 1) of
           None \<Rightarrow> Inl UnableToParseId
         | Some n \<Rightarrow>
             if desc ! 0 = ''client'' then Inr \<lparr>Role = Client, Id = n\<rparr>
             else if desc ! 0 = ''trustee'' then Inr \<lparr>Role = Trustee, Id = n\<rparr>
             else Inl InvalidRole)
      else Inl InvalidDescription)"

text \<open>
  \<^verbatim>\<open>mapIdentities\<close> walks the roster of the group, keeps the identity of every node
  whose description parses in a Go map keyed by the node's address, and remembers the
  last node that parsed as a relay. The Go map is an association list with one entry
  per key (\<^const>\<open>AList.update\<close> overwrites, as the Go assignment does). Of a server
  identity only the address and the public key are kept; the description of a node is
  looked up in the group, as \<^verbatim>\<open>group.GetDescription(si)\<close> does.
\<close>

record ServerIdentity =
  Address :: string
  Public :: string

record Group =
  Roster_List :: "ServerIdentity list"
  GetDescription :: "ServerIdentity \<Rightarrow> string"

datatype fatal_exit = Fatal

type_synonym identity_map = "(string \<times> PriFiIdentity) list"

definition zero_ServerIdentity :: ServerIdentity where
  "zero_ServerIdentity = \<lparr>Address = [], Public = []\<rparr>"

text \<open>The first loop of \<^verbatim>\<open>mapIdentities\<close>: a node that does not parse is skipped.\<close>

fun readNodes ::
  "Group \<Rightarrow> ServerIdentity list \<Rightarrow> identity_map \<times> ServerIdentity \<Rightarrow> identity_map \<times> ServerIdentity"
where
  "readNodes grp [] (m, relay) = (m, relay)"
| "readNodes grp (si # nodeList) (m, relay) =
     (case parseDescription (GetDescription grp si) of
        Inl err \<Rightarrow> readNodes grp nodeList (m, relay)
      | Inr ident \<Rightarrow>
          readNodes grp nodeList
            (AList.update (Address si) ident m, if Role ident = Relay then si else relay))"

text \<open>The second loop: the counters \<open>t\<close>, \<open>c\<close>, \<open>r\<close> over the values of the map.\<close>

fun countRoles :: "identity_map \<Rightarrow> nat \<times> nat \<times> nat \<Rightarrow> nat \<times> nat \<times> nat" where
  "countRoles [] (t, c, r) = (t, c, r)"
| "countRoles ((a, v) # m) (t, c, r) =
     (case Role v of
        Relay \<Rightarrow> countRoles m (t, c, r + 1)
      | Client \<Rightarrow> countRoles m (t, c + 1, r)
      | Trustee \<Rightarrow> countRoles m (t + 1, c, r))"

definition mapIdentities :: "Group \<Rightarrow> fatal_exit + identity_map \<times> ServerIdentity" where
  "mapIdentities grp =
     (let (m, relay) = readNodes grp (Roster_List grp) ([], zero_ServerIdentity);
          (t, c, r) = countRoles m (0, 0, 0)
      in if \<not> (t > 0 \<and> c > 0 \<and> r = 1) then Inl Fatal else Inr (m, relay))"

text \<open>
  The role assignment that \<^verbatim>\<open>mapIdentities\<close> checks, as a partial function from
  addresses to identities, and the addresses that hold a given role in it.
\<close>

definition assignment :: "Group \<Rightarrow> string \<rightharpoonup> PriFiIdentity" where
  "assignment grp = map_of (fst (readNodes grp (Roster_List grp) ([], zero_ServerIdentity)))"

definition holders :: "PriFiRole \<Rightarrow> (string \<rightharpoonup> PriFiIdentity) \<Rightarrow> string set" where
  "holders role M = {a. \<exists>v. M a = Some v \<and> Role v = role}"

text \<open>\<^verbatim>\<open>strings.Join(pieces, " ")\<close>, the inverse of \<^const>\<open>Split\<close>, used to state what
  \<^const>\<open>Split\<close> returns.\<close>

fun Join :: "string list \<Rightarrow> string" where
  "Join [] = []"
| "Join [x] = x"
| "Join (x # y # ys) = x @ CHR '' '' # Join (y # ys)"

section \<open>Equivocation protection (prifi-lib/dcnet/equivocation.go)\<close>

subsection \<open>The libraries the package calls\<close>

text \<open>
  The package computes with \<^verbatim>\<open>kyber.Scalar\<close> values of the configured suite
  (\<^verbatim>\<open>config.CryptoSuite\<close>) and with AES-GCM and SHA-256 of the Go standard library.
  None of them is part of the repository, so they are parameters of the model, collected
  in one record:
  \<^item> \<open>order\<close> is the order of the group: a scalar is an integer modulo \<open>order\<close>, and
    \<^verbatim>\<open>Add\<close>, \<^verbatim>\<open>Sub\<close> and \<^verbatim>\<open>Mul\<close> compute modulo it;
  \<^item> \<open>SetBytes_val\<close> is the value \<^verbatim>\<open>Scalar.SetBytes\<close> stores, \<open>Marshal_val\<close> the
    result of \<^verbatim>\<open>Scalar.MarshalBinary\<close> (\<open>None\<close> when it returns an error);
  \<^item> \<open>NewXOF\<close> is \<^verbatim>\<open>suite.XOF(key)\<close> and \<open>Pick_val\<close> the value \<^verbatim>\<open>Scalar.Pick\<close> draws
    from a stream, with the stream's next state;
  \<^item> \<open>Sum256\<close> is \<^verbatim>\<open>sha256.Sum256\<close>; \<open>Seal\<close> and \<open>Open\<close> are the methods of the AEAD
    that \<^verbatim>\<open>cipher.NewGCM\<close> returns, with key, nonce and text as arguments and no
    additional data (\<open>None\<close> when \<^verbatim>\<open>Open\<close> returns an error).
\<close>

type_synonym byte = "8 word"
type_synonym bytes = "byte list"

record 'x crypto =
  order :: int
  SetBytes_val :: "bytes \<Rightarrow> int"
  Marshal_val :: "int \<Rightarrow> bytes option"
  NewXOF :: "bytes \<Rightarrow> 'x"
  Pick_val :: "'x \<Rightarrow> int \<times> 'x"
  Sum256 :: "bytes \<Rightarrow> bytes"
  Seal :: "bytes \<Rightarrow> bytes \<Rightarrow> bytes \<Rightarrow> bytes"
  Open :: "bytes \<Rightarrow> bytes \<Rightarrow> bytes \<Rightarrow> bytes option"

text \<open>
  \<^verbatim>\<open>aes.NewCipher\<close> returns an error unless the key has 16, 24 or 32 bytes;
  \<^verbatim>\<open>cipher.NewGCM\<close> returns an error only for a block cipher whose block size is not
  16 bytes, which AES never is. The block cipher and the AEAD are represented by their key.
\<close>

definition aes_NewCipher :: "bytes \<Rightarrow> bytes option" where
  "aes_NewCipher key = (if length key \<in> {16, 24, 32} then Some key else None)"

definition cipher_NewGCM :: "bytes \<Rightarrow> bytes option" where
  "cipher_NewGCM block = Some block"

text \<open>\<^verbatim>\<open>make([]byte, n)\<close>: \<open>n\<close> zero bytes.\<close>

definition make_bytes :: "nat \<Rightarrow> bytes" where
  "make_bytes n = replicate n 0"

subsection \<open>State: the structure and the scalars it points to\<close>

text \<open>
  A \<^verbatim>\<open>kyber.Scalar\<close> is a reference to a mutable object: \<^verbatim>\<open>a.Add(b, c)\<close> overwrites
  \<open>a\<close> and returns it. The state therefore holds every scalar allocated so far in a
  store, addressed by position, next to the two fields of
  \<^verbatim>\<open>EquivocationProtection\<close> that the methods use: \<open>history\<close> is the address of the
  history scalar and \<open>randomness\<close> the state of the structure's random stream.
  Each method takes the state and returns its result with the new state.
\<close>

record 'x EquivocationProtection =
  scalars :: "int list"
  history :: nat
  randomness :: 'x

datatype failure = LogFatal | Panic

definition get :: "nat \<Rightarrow> 'x EquivocationProtection \<Rightarrow> int" where
  "get a e = scalars e ! a"

definition put :: "nat \<Rightarrow> int \<Rightarrow> 'x EquivocationProtection \<Rightarrow> 'x EquivocationProtection" where
  "put a v e = e\<lparr>scalars := (scalars e)[a := v]\<rparr>"

text \<open>\<^verbatim>\<open>suite.Scalar()\<close> allocates a new scalar, of value zero.\<close>

definition Scalar :: "'x EquivocationProtection \<Rightarrow> nat \<times> 'x EquivocationProtection" where
  "Scalar e = (length (scalars e), e\<lparr>scalars := scalars e @ [0]\<rparr>)"

text \<open>The methods of a scalar used by the package; each returns its receiver \<open>r\<close>.\<close>

definition Zero :: "nat \<Rightarrow> 'x EquivocationProtection \<Rightarrow> 'x EquivocationProtection" where
  "Zero r e = put r 0 e"

definition One :: "nat \<Rightarrow> 'x EquivocationProtection \<Rightarrow> 'x EquivocationProtection" where
  "One r e = put r 1 e"

definition SetBytes ::
  "'x crypto \<Rightarrow> nat \<Rightarrow> bytes \<Rightarrow> 'x EquivocationProtection \<Rightarrow> 'x EquivocationProtection" where
  "SetBytes s r b e = put r (SetBytes_val s b) e"

definition Add ::
  "'x crypto \<Rightarrow> nat \<Rightarrow> nat \<Rightarrow> nat \<Rightarrow> 'x EquivocationProtection \<Rightarrow> 'x EquivocationProtection" where
  "Add s r a b e = put r ((get a e + get b e) mod order s) e"

definition Sub ::
  "'x crypto \<Rightarrow> nat \<Rightarrow> nat \<Rightarrow> nat \<Rightarrow> 'x EquivocationProtection \<Rightarrow> 'x EquivocationProtection" where
  "Sub s r a b e = put r ((get a e - get b e) mod order s) e"

definition Mul ::
  "'x crypto \<Rightarrow> nat \<Rightarrow> nat \<Rightarrow> nat \<Rightarrow> 'x EquivocationProtection \<Rightarrow> 'x EquivocationProtection" where
  "Mul s r a b e = put r ((get a e * get b e) mod order s) e"

definition Pick :: "'x crypto \<Rightarrow> nat \<Rightarrow> 'x EquivocationProtection \<Rightarrow> 'x EquivocationProtection" where
  "Pick s r e =
     (let (v, x') = Pick_val s (randomness e) in (put r v e)\<lparr>randomness := x'\<rparr>)"

definition MarshalBinary :: "'x crypto \<Rightarrow> nat \<Rightarrow> 'x EquivocationProtection \<Rightarrow> bytes option" where
  "MarshalBinary s a e = Marshal_val s (get a e)"

subsection \<open>The methods of the structure\<close>

text \<open>
  \<^verbatim>\<open>NewEquivocation\<close>: the history is a new scalar set to one. \<open>store\<close> is the store
  of scalars at the time of the call and \<open>randomKey\<close> the 32 bytes that
  \<^verbatim>\<open>rand.Read\<close> delivers.
\<close>

definition NewEquivocation :: "'x crypto \<Rightarrow> int list \<Rightarrow> bytes \<Rightarrow> 'x EquivocationProtection" where
  "NewEquivocation s store randomKey =
     (let e = \<lparr>scalars = store, history = 0, randomness = NewXOF s randomKey\<rparr>;
          (a, e) = Scalar e;
          e = One a e
      in e\<lparr>history := a\<rparr>)"

definition randomScalar ::
  "'x crypto \<Rightarrow> 'x EquivocationProtection \<Rightarrow> nat \<times> 'x EquivocationProtection" where
  "randomScalar s e = (let (a, e) = Scalar e in (a, Pick s a e))"

definition hashInGroup ::
  "'x crypto \<Rightarrow> bytes \<Rightarrow> 'x EquivocationProtection \<Rightarrow> nat \<times> 'x EquivocationProtection" where
  "hashInGroup s data e = (let (a, e) = Scalar e in (a, SetBytes s a data e))"

text \<open>
  \<^verbatim>\<open>UpdateHistory\<close>: the buffer \<open>toBeHashed\<close> is made with the length of the marshalled
  history plus the length of \<open>data\<close>, and hashed as \<^verbatim>\<open>make\<close> left it: neither the
  history bytes nor \<open>data\<close> are copied into it.
\<close>

definition UpdateHistory ::
  "'x crypto \<Rightarrow> bytes \<Rightarrow> 'x EquivocationProtection \<Rightarrow> (failure + unit) \<times> 'x EquivocationProtection"
where
  "UpdateHistory s data e =
     (case MarshalBinary s (history e) e of
        None \<Rightarrow> (Inl LogFatal, e)
      | Some historyB \<Rightarrow>
          (let toBeHashed = make_bytes (length historyB + length data);
               newPayload = Sum256 s toBeHashed
           in (Inr (), SetBytes s (history e) newPayload e)))"

text \<open>
  The loops of the package. \<open>each_scalar f\<close> is
  \<^verbatim>\<open>for k, v := range vs { out[k] = f(v) }\<close> for an \<open>f\<close> that returns a new scalar;
  \<open>add_each s sum0\<close> is \<^verbatim>\<open>for _, p := range ps { sum = sum.Add(sum, p) }\<close>.
\<close>

fun each_scalar ::
  "(bytes \<Rightarrow> 'x EquivocationProtection \<Rightarrow> nat \<times> 'x EquivocationProtection) \<Rightarrow>
   bytes list \<Rightarrow> 'x EquivocationProtection \<Rightarrow> nat list \<times> 'x EquivocationProtection"
where
  "each_scalar f [] e = ([], e)"
| "each_scalar f (v # vs) e =
     (let (a, e) = f v e; (as, e) = each_scalar f vs e in (a # as, e))"

fun add_each ::
  "'x crypto \<Rightarrow> nat \<Rightarrow> nat list \<Rightarrow> 'x EquivocationProtection \<Rightarrow> 'x EquivocationProtection"
where
  "add_each s sum0 [] e = e"
| "add_each s sum0 (p # ps) e = add_each s sum0 ps (Add s sum0 sum0 p e)"

text \<open>\<^verbatim>\<open>e.suite.Scalar().SetBytes(v)\<close>, as the relay writes it.\<close>

definition Scalar_SetBytes ::
  "'x crypto \<Rightarrow> bytes \<Rightarrow> 'x EquivocationProtection \<Rightarrow> nat \<times> 'x EquivocationProtection" where
  "Scalar_SetBytes s v e = (let (a, e) = Scalar e in (a, SetBytes s a v e))"

text \<open>
  \<^verbatim>\<open>ClientEncryptPayload\<close>. \<open>product\<close> is the scalar \<open>sum0\<close> (the source's \<open>sum\<close>) itself after
  \<^verbatim>\<open>sum.Mul(sum, e.history)\<close>. For the slot owner the key bytes are marshalled from
  \<open>k_i\<close> before \<^verbatim>\<open>k_i.Add(k_i, product)\<close> overwrites it with kappa.
\<close>

definition ClientEncryptPayload ::
  "'x crypto \<Rightarrow> bool \<Rightarrow> bytes \<Rightarrow> bytes list \<Rightarrow> 'x EquivocationProtection \<Rightarrow>
   (failure + bytes \<times> bytes) \<times> 'x EquivocationProtection"
where
  "ClientEncryptPayload s slotOwner x p_j e =
     (let (q_j, e) = each_scalar (hashInGroup s) p_j e;
          (sum0, e) = Scalar e;
          e = Zero sum0 e;
          e = add_each s sum0 q_j e;
          e = Mul s sum0 sum0 (history e) e;
          product = sum0
      in if \<not> slotOwner then
           (case MarshalBinary s product e of
              None \<Rightarrow> (Inl LogFatal, e)
            | Some kappa_i_bytes \<Rightarrow> (Inr (x, kappa_i_bytes), e))
         else
           (let (k_i, e) = randomScalar s e in
            case MarshalBinary s k_i e of
              None \<Rightarrow> (Inl LogFatal, e)
            | Some k_i_bytes \<Rightarrow>
                (case aes_NewCipher k_i_bytes of
                   None \<Rightarrow> (Inl Panic, e)
                 | Some block \<Rightarrow>
                     (let nonce = make_bytes 12 in
                      case cipher_NewGCM block of
                        None \<Rightarrow> (Inl Panic, e)
                      | Some aesgcm \<Rightarrow>
                          (let x = Seal s aesgcm nonce x;
                               e = Add s k_i k_i product e
                           in case MarshalBinary s k_i e of
                                None \<Rightarrow> (Inl LogFatal, e)
                              | Some kappa_i_bytes \<Rightarrow> (Inr (x, kappa_i_bytes), e))))))"

text \<open>\<^verbatim>\<open>ClientProve\<close> and \<^verbatim>\<open>TrusteeProve\<close> return \<^verbatim>\<open>nil\<close>.\<close>

definition ClientProve :: "'x EquivocationProtection \<Rightarrow> bytes \<times> 'x EquivocationProtection" where
  "ClientProve e = ([], e)"

definition TrusteeProve :: "'x EquivocationProtection \<Rightarrow> bytes \<times> 'x EquivocationProtection" where
  "TrusteeProve e = ([], e)"

definition TrusteeGetContribution ::
  "'x crypto \<Rightarrow> bytes list \<Rightarrow> 'x EquivocationProtection \<Rightarrow>
   (failure + bytes) \<times> 'x EquivocationProtection"
where
  "TrusteeGetContribution s s_i e =
     (let (q_i, e) = each_scalar (hashInGroup s) s_i e;
          (sum0, e) = Scalar e;
          e = Zero sum0 e;
          e = add_each s sum0 q_i e;
          kappa_j = sum0
      in case MarshalBinary s kappa_j e of
           None \<Rightarrow> (Inl LogFatal, e)
         | Some kappa_j_bytes \<Rightarrow> (Inr kappa_j_bytes, e))"

text \<open>
  \<^verbatim>\<open>RelayDecode\<close>. When \<^verbatim>\<open>Open\<close> returns an error the message is
  \<^verbatim>\<open>make([]byte, len(encryptedPayload)-16)\<close>, which panics for a negative length.
\<close>

definition RelayDecode ::
  "'x crypto \<Rightarrow> bytes \<Rightarrow> bytes list \<Rightarrow> bytes list \<Rightarrow> 'x EquivocationProtection \<Rightarrow>
   (failure + bytes) \<times> 'x EquivocationProtection"
where
  "RelayDecode s encryptedPayload trusteesContributions clientsContributions e =
     (let (trustee_kappa_j, e) = each_scalar (Scalar_SetBytes s) trusteesContributions e;
          (client_kappa_i, e) = each_scalar (Scalar_SetBytes s) clientsContributions e;
          (sumTrustees, e) = Scalar e;
          e = Zero sumTrustees e;
          e = add_each s sumTrustees trustee_kappa_j e;
          (sumClients, e) = Scalar e;
          e = Zero sumClients e;
          e = add_each s sumClients client_kappa_i e;
          e = Mul s sumTrustees sumTrustees (history e) e;
          prod = sumTrustees;
          e = Sub s sumClients sumClients prod e;
          k_i = sumClients
      in case MarshalBinary s k_i e of
           None \<Rightarrow> (Inl LogFatal, e)
         | Some k_bytes \<Rightarrow>
             if length k_bytes = 0 then (Inr (make_bytes 0), e)
             else
               (let nonce = make_bytes 12 in
                case aes_NewCipher k_bytes of
                  None \<Rightarrow> (Inl Panic, e)
                | Some block \<Rightarrow>
                    (case cipher_NewGCM block of
                       None \<Rightarrow> (Inl Panic, e)
                     | Some aesgcm \<Rightarrow>
                         (case Open s aesgcm nonce encryptedPayload of
                            Some message \<Rightarrow> (Inr message, e)
                          | None \<Rightarrow>
                              if length encryptedPayload < 16 then (Inl Panic, e)
                              else (Inr (make_bytes (length encryptedPayload - 16)), e)))))"

subsection \<open>The quantities of the protocol\<close>

text \<open>
  The scalar sum \<open>\<sigma> = \<Sum> H_group(p)\<close> over a list of pads, in the scalars modulo the
  order of the group; \<open>H_group\<close> is \<^verbatim>\<open>Scalar.SetBytes\<close>.
\<close>

definition scalar_sum :: "'x crypto \<Rightarrow> bytes list \<Rightarrow> int" where
  "scalar_sum s ps = sum_list (map (SetBytes_val s) ps) mod order s"

text \<open>The key the relay derives: \<open>k = \<Sum> \<kappa>\<^sub>i - h \<cdot> \<Sum> \<sigma>\<^sub>j\<close>, from the contributions as received.\<close>

definition relay_key :: "'x crypto \<Rightarrow> int \<Rightarrow> bytes list \<Rightarrow> bytes list \<Rightarrow> int" where
  "relay_key s h trusteesContributions clientsContributions =
     (scalar_sum s clientsContributions - (scalar_sum s trusteesContributions * h) mod order s)
       mod order s"

text \<open>
  What the package relies on from the libraries: the order is positive; a reduced scalar
  marshals without error to a byte string that AES accepts as a key and that
  \<^verbatim>\<open>SetBytes\<close> reads back as the same scalar; \<^verbatim>\<open>Pick\<close> draws a reduced scalar; and
  \<^verbatim>\<open>Open\<close> returns what \<^verbatim>\<open>Seal\<close> was given under the same key and nonce.
\<close>

definition sound_crypto :: "'x crypto \<Rightarrow> bool" where
  "sound_crypto s \<longleftrightarrow>
     0 < order s \<and>
     (\<forall>v. 0 \<le> v \<and> v < order s \<longrightarrow>
        (\<exists>b. Marshal_val s v = Some b \<and> length b \<in> {16, 24, 32} \<and> SetBytes_val s b = v)) \<and>
     (\<forall>x. 0 \<le> fst (Pick_val s x) \<and> fst (Pick_val s x) < order s) \<and>
     (\<forall>key nonce x. Open s key nonce (Seal s key nonce x) = Some x)"

text \<open>The state is well formed when the history points to an allocated scalar.\<close>

definition valid :: "'x EquivocationProtection \<Rightarrow> bool" where
  "valid e \<longleftrightarrow> history e < length (scalars e)"

subsection \<open>A round\<close>

text \<open>
  The calls of one round, in sequence on one state: every client encrypts
  (\<open>clients_encrypt\<close>, one call of \<^const>\<open>ClientEncryptPayload\<close> per client, with the
  flag, the payload and the pads of that client), every trustee contributes
  (\<open>trustees_contribute\<close>, one call of \<^const>\<open>TrusteeGetContribution\<close> per trustee), and
  the relay decodes. A failure of a call ends the round.
\<close>

fun clients_encrypt ::
  "'x crypto \<Rightarrow> (bool \<times> bytes \<times> bytes list) list \<Rightarrow> 'x EquivocationProtection \<Rightarrow>
   (failure + (bytes \<times> bytes) list) \<times> 'x EquivocationProtection"
where
  "clients_encrypt s [] e = (Inr [], e)"
| "clients_encrypt s ((slotOwner, x, p_j) # calls) e =
     (case ClientEncryptPayload s slotOwner x p_j e of
        (Inl f, e) \<Rightarrow> (Inl f, e)
      | (Inr out, e) \<Rightarrow>
          (case clients_encrypt s calls e of
             (Inl f, e) \<Rightarrow> (Inl f, e)
           | (Inr outs, e) \<Rightarrow> (Inr (out # outs), e)))"

fun trustees_contribute ::
  "'x crypto \<Rightarrow> bytes list list \<Rightarrow> 'x EquivocationProtection \<Rightarrow>
   (failure + bytes list) \<times> 'x EquivocationProtection"
where
  "trustees_contribute s [] e = (Inr [], e)"
| "trustees_contribute s (s_i # calls) e =
     (case TrusteeGetContribution s s_i e of
        (Inl f, e) \<Rightarrow> (Inl f, e)
      | (Inr out, e) \<Rightarrow>
          (case trustees_contribute s calls e of
             (Inl f, e) \<Rightarrow> (Inl f, e)
           | (Inr outs, e) \<Rightarrow> (Inr (out # outs), e)))"

text \<open>
  An honest round with \<open>length pads\<close> clients and \<open>m\<close> trustees: \<open>pads ! i ! j\<close> is the
  pad that client \<open>i\<close> and trustee \<open>j\<close> share, \<open>payloads ! i\<close> is what client \<open>i\<close>
  submits, and client \<open>owner\<close> is the slot owner. Client \<open>i\<close> hashes its row of pads,
  trustee \<open>j\<close> its column. The relay decodes the owner's ciphertext with all
  contributions, in the order of the clients and of the trustees.
\<close>

definition honest_round ::
  "'x crypto \<Rightarrow> nat \<Rightarrow> bytes list \<Rightarrow> bytes list list \<Rightarrow> nat \<Rightarrow> 'x EquivocationProtection \<Rightarrow>
   (failure + bytes) \<times> 'x EquivocationProtection"
where
  "honest_round s owner payloads pads m e =
     (case clients_encrypt s
             (map (\<lambda>i. (i = owner, payloads ! i, pads ! i)) [0..<length pads]) e of
        (Inl f, e) \<Rightarrow> (Inl f, e)
      | (Inr outs, e) \<Rightarrow>
          (case trustees_contribute s (map (\<lambda>j. map (\<lambda>p_i. p_i ! j) pads) [0..<m]) e of
             (Inl f, e) \<Rightarrow> (Inl f, e)
           | (Inr sigmas, e) \<Rightarrow>
               RelayDecode s (fst (outs ! owner)) sigmas (map snd outs) e))"

text \<open>
  \<^verbatim>\<open>UpdateHistory\<close> as the specification words it: the hash of the marshalled history
  followed by the data, set back into the history scalar.
\<close>

definition UpdateHistory_spec ::
  "'x crypto \<Rightarrow> bytes \<Rightarrow> 'x EquivocationProtection \<Rightarrow> (failure + unit) \<times> 'x EquivocationProtection"
where
  "UpdateHistory_spec s data e =
     (case MarshalBinary s (history e) e of
        None \<Rightarrow> (Inl LogFatal, e)
      | Some historyB \<Rightarrow>
          (Inr (), SetBytes s (history e) (Sum256 s (historyB @ data)) e))"

subsection \<open>Notions used in the proofs\<close>

text \<open>The contribution of a client that does not own the slot: \<open>\<kappa> = h \<cdot> \<sigma>\<close>.\<close>

definition kappa_plain :: "'x crypto \<Rightarrow> int \<Rightarrow> bytes list \<Rightarrow> int" where
  "kappa_plain s h p_j = (scalar_sum s p_j * h) mod order s"

text \<open>\<open>grows e e'\<close>: the state \<open>e'\<close> has the history pointer of \<open>e\<close> and the scalars of
  \<open>e\<close>, each with the value it had, followed by newly allocated ones.\<close>

definition grows :: "'x EquivocationProtection \<Rightarrow> 'x EquivocationProtection \<Rightarrow> bool" where
  "grows e e' \<longleftrightarrow> history e' = history e \<and> (\<exists>new. scalars e' = scalars e @ new)"

text \<open>\<open>same_history e e'\<close>: the structure points to the same history scalar in \<open>e'\<close> as in
  \<open>e\<close>, and that scalar has the same value.\<close>

definition same_history :: "'x EquivocationProtection \<Rightarrow> 'x EquivocationProtection \<Rightarrow> bool" where
  "same_history e e' \<longleftrightarrow> history e' = history e \<and> get (history e') e' = get (history e) e"

text \<open>What one call of \<^const>\<open>ClientEncryptPayload\<close> returns under history \<open>h\<close>: for the slot
  owner the payload sealed under a reduced scalar \<open>k\<close> and a kappa that reads back as
  \<open>k + h \<cdot> \<sigma>\<close>; for another client the payload itself and a kappa that reads back as
  \<open>h \<cdot> \<sigma>\<close>.\<close>

definition client_ok ::
  "'x crypto \<Rightarrow> int \<Rightarrow> bool \<times> bytes \<times> bytes list \<Rightarrow> bytes \<times> bytes \<Rightarrow> bool" where
  "client_ok s h call out =
     (case call of (slotOwner, x, p_j) \<Rightarrow>
        (case out of (x', kappa_i_bytes) \<Rightarrow>
           if slotOwner then
             (\<exists>k k_i_bytes. 0 \<le> k \<and> k < order s \<and> Marshal_val s k = Some k_i_bytes \<and>
                length k_i_bytes \<in> {16, 24, 32} \<and>
                x' = Seal s k_i_bytes (make_bytes 12) x \<and>
                SetBytes_val s kappa_i_bytes = (k + kappa_plain s h p_j) mod order s)
           else x' = x \<and> SetBytes_val s kappa_i_bytes = kappa_plain s h p_j))"

text \<open>The sum of all hashed pads of a round, over the integers.\<close>

definition all_pads_sum :: "'x crypto \<Rightarrow> bytes list list \<Rightarrow> int" where
  "all_pads_sum s pads = sum_list (map (\<lambda>row. sum_list (map (SetBytes_val s) row)) pads)"

text \<open>What \<^const>\<open>RelayDecode\<close> returns once it has derived the scalar \<open>k\<close>.\<close>

definition relay_result :: "'x crypto \<Rightarrow> bytes \<Rightarrow> int \<Rightarrow> failure + bytes" where
  "relay_result s encryptedPayload k =
     (case Marshal_val s k of
        None \<Rightarrow> Inl LogFatal
      | Some k_bytes \<Rightarrow>
          if length k_bytes = 0 then Inr []
          else if length k_bytes \<in> {16, 24, 32} then
            (case Open s k_bytes (make_bytes 12) encryptedPayload of
               Some message \<Rightarrow> Inr message
             | None \<Rightarrow>
                 if length encryptedPayload < 16 then Inl Panic
                 else Inr (make_bytes (length encryptedPayload - 16)))
          else Inl Panic)"

section \<open>The trustee's connection handler (trustee/trusteeServer.go)\<close>

subsection \<open>What the handler is given\<close>

text \<open>
  The handler works with the points and secrets of \<^verbatim>\<open>config.CryptoSuite\<close>, with the
  constant \<^verbatim>\<open>config.LLD_PROTOCOL_VERSION\<close> and with the marshalling helpers of the
  package \<^verbatim>\<open>prifinet\<close>. None of them is among the source files, so they are parameters
  of the model: \<open>'pt\<close> is the type of points and \<open>'sk\<close> the type of secrets;
  \<open>Secret_Pick name\<close> is the secret picked from the cipher seeded with \<open>name\<close>;
  \<open>Point_Mul p k\<close> is the point \<open>p\<close> multiplied by the secret \<open>k\<close>; a marshalling
  function returns \<open>None\<close> where the Go function returns an error or panics.
\<close>

record ('pt, 'sk) trustee_env =
  LLD_PROTOCOL_VERSION :: int
  Point_Base :: 'pt
  Secret_Pick :: "string \<Rightarrow> 'sk"
  Point_Mul :: "'pt \<Rightarrow> 'sk \<Rightarrow> 'pt"
  Point_UnmarshalBinary :: "bytes \<Rightarrow> 'pt option"
  Point_MarshalBinary :: "'pt \<Rightarrow> bytes option"
  UnMarshalPublicKeyArrayFromByteArray :: "bytes \<Rightarrow> 'pt list option"
  MarshalPublicKeyArrayToByteArray :: "'pt list \<Rightarrow> bytes option"

text \<open>\<^verbatim>\<open>binary.BigEndian.Uint32\<close> of a slice of four bytes, and \<^verbatim>\<open>PutUint32\<close>.\<close>

definition Uint32 :: "bytes \<Rightarrow> 32 word" where
  "Uint32 b = foldl (\<lambda>acc x. push_bit 8 acc OR ucast x) 0 (take 4 b)"

definition PutUint32 :: "32 word \<Rightarrow> bytes" where
  "PutUint32 v = [ucast (drop_bit 24 v), ucast (drop_bit 16 v), ucast (drop_bit 8 v), ucast v]"

text \<open>\<open>buffer[lo:hi]\<close>, for bounds that are within the buffer.\<close>

definition slice :: "bytes \<Rightarrow> nat \<Rightarrow> nat \<Rightarrow> bytes" where
  "slice buffer lo hi = take (hi - lo) (drop lo buffer)"

text \<open>
  \<^verbatim>\<open>conn.Read(buffer)\<close> stores the bytes received, at most as many as the buffer holds,
  at the front of the buffer and leaves the rest of the buffer as it was.
\<close>

definition read_into :: "bytes \<Rightarrow> bytes \<Rightarrow> bytes" where
  "read_into buffer received =
     (let d = take (length buffer) received in d @ drop (length d) buffer)"

text \<open>\<^verbatim>\<open>strconv.Itoa\<close> of a number that is not negative.\<close>

fun Itoa :: "nat \<Rightarrow> string" where
  "Itoa n = (if n < 10 then [char_of (48 + n)] else Itoa (n div 10) @ [char_of (48 + n mod 10)])"

subsection \<open>The state of a trustee\<close>

text \<open>
  The fields of \<^verbatim>\<open>TrusteeState\<close> that \<^verbatim>\<open>initiateTrusteeState\<close> fills and the handler
  uses. A slice of points made by \<^verbatim>\<open>make\<close> holds \<^verbatim>\<open>nil\<close> (\<open>None\<close>) at every index.
  The connection and the cell coder are not represented.
\<close>

record ('pt, 'sk) TrusteeState =
  Name :: string
  TrusteeId :: nat
  nClients :: nat
  nTrustees :: nat
  PayloadLength :: nat
  privateKey :: 'sk
  PublicKey :: 'pt
  ClientPublicKeys :: "'pt option list"
  sharedSecrets :: "'pt option list"

definition initiateTrusteeState ::
  "('pt, 'sk) trustee_env \<Rightarrow> nat \<Rightarrow> nat \<Rightarrow> nat \<Rightarrow> nat \<Rightarrow> ('pt, 'sk) TrusteeState" where
  "initiateTrusteeState env trusteeId nClients' nTrustees' payloadLength =
     (let name = ''Trustee-'' @ Itoa trusteeId;
          base = Point_Base env;
          priv = Secret_Pick env name
      in \<lparr>Name = name, TrusteeId = trusteeId, nClients = nClients', nTrustees = nTrustees',
          PayloadLength = payloadLength, privateKey = priv,
          PublicKey = Point_Mul env base priv,
          ClientPublicKeys = replicate nClients' None,
          sharedSecrets = replicate nClients' None\<rparr>)"

subsection \<open>The handler\<close>

text \<open>
  What the handler does on its connection, in order, and how it ends. A return and a
  panic both run the deferred \<^verbatim>\<open>conn.Close()\<close>; the handler that has written its shuffle
  reply enters \<^verbatim>\<open>for { time.Sleep(5 * time.Second) }\<close> and never leaves it.
\<close>

datatype 'pt event =
    TellPublicKey int 'pt
  | ReadPublicKeys
  | Write bytes
  | Close

datatype ending = Returned | Panicked | SleepsForever

text \<open>
  The loop that stores the clients' public keys and the shared secrets, from index \<open>i\<close>
  on: an index beyond the slices made for \<open>nClients\<close> keys panics.
\<close>

fun store_keys ::
  "('pt, 'sk) trustee_env \<Rightarrow> 'pt list \<Rightarrow> nat \<Rightarrow> ('pt, 'sk) TrusteeState \<Rightarrow>
   ('pt, 'sk) TrusteeState option"
where
  "store_keys env [] i trusteeState = Some trusteeState"
| "store_keys env (key # clientsPublicKeys) i trusteeState =
     (if i \<ge> length (ClientPublicKeys trusteeState) then None
      else store_keys env clientsPublicKeys (i + 1)
             (trusteeState
                \<lparr>ClientPublicKeys := (ClientPublicKeys trusteeState)[i := Some key],
                 sharedSecrets :=
                   (sharedSecrets trusteeState)
                     [i := Some (Point_Mul env key (privateKey trusteeState))]\<rparr>))"

text \<open>
  The shuffle step: from the buffer that holds the request to the message written back.
  The request is \<open>[u32 baseSize][base][u32 keysSize][keys]\<close>; a slice that reaches beyond
  the 1024 bytes of the buffer panics. The base and the keys are unmarshalled, assigned
  to \<open>base2\<close> and \<open>ephPublicKeys2\<close> as they are, and marshalled again; the proof is
  \<^verbatim>\<open>make([]byte, 50)\<close>. The message is written field by field in the source; the fields
  cover it without gap or overlap, so it is their concatenation.
\<close>

definition shuffle_message :: "('pt, 'sk) trustee_env \<Rightarrow> bytes \<Rightarrow> bytes option" where
  "shuffle_message env buffer =
     (let baseSize = unat (Uint32 (slice buffer 0 4)) in
      if 8 + baseSize > length buffer then None
      else
        (let keysSize = unat (Uint32 (slice buffer (4 + baseSize) (8 + baseSize)));
             baseBytes = slice buffer 4 (4 + baseSize)
         in if 8 + baseSize + keysSize > length buffer then None
            else
              (let keysBytes = slice buffer (8 + baseSize) (8 + baseSize + keysSize) in
               case Point_UnmarshalBinary env baseBytes of
                 None \<Rightarrow> None
               | Some base \<Rightarrow>
                   (case UnMarshalPublicKeyArrayFromByteArray env keysBytes of
                      None \<Rightarrow> None
                    | Some ephPublicKeys \<Rightarrow>
                        (let base2 = base;
                             ephPublicKeys2 = ephPublicKeys;
                             proof = make_bytes 50
                         in case Point_MarshalBinary env base2 of
                              None \<Rightarrow> None
                            | Some base2Bytes \<Rightarrow>
                                (case MarshalPublicKeyArrayToByteArray env ephPublicKeys2 of
                                   None \<Rightarrow> None
                                 | Some ephPublicKeys2Bytes \<Rightarrow>
                                     Some (PutUint32 (of_nat (length base2Bytes)) @ base2Bytes @
                                           PutUint32 (of_nat (length ephPublicKeys2Bytes)) @
                                           ephPublicKeys2Bytes @
                                           PutUint32 (of_nat (length proof)) @ proof)))))))"

text \<open>
  \<^verbatim>\<open>handleConnection\<close>. Its inputs are what the connection delivers: \<open>read1\<close> and
  \<open>read2\<close> are the bytes of the two calls of \<^verbatim>\<open>conn.Read\<close> (\<open>None\<close> for an error),
  \<open>clientsPublicKeys\<close> is what \<^verbatim>\<open>UnMarshalPublicKeyArrayFromConnection\<close> returns, and
  \<open>write_ok\<close> tells whether \<^verbatim>\<open>conn.Write\<close> succeeds. The result is the list of what the
  handler did on the connection and how it ended. The connection id appears only in the
  lines the handler prints, and the channel of closed connections only after the loop
  that never ends; neither is an argument here.
\<close>

definition handleConnection ::
  "('pt, 'sk) trustee_env \<Rightarrow> bytes option \<Rightarrow> 'pt list \<Rightarrow> bytes option \<Rightarrow> bool \<Rightarrow>
   'pt event list \<times> ending"
where
  "handleConnection env read1 clientsPublicKeys read2 write_ok =
     (let buffer = make_bytes 1024 in
      case read1 of
        None \<Rightarrow> ([Close], Returned)
      | Some received1 \<Rightarrow>
          (let buffer = read_into buffer received1;
               version = int (unat (Uint32 (slice buffer 0 4)))
           in if version \<noteq> LLD_PROTOCOL_VERSION env then ([Close], Returned)
              else
                (let cellSize = unat (Uint32 (slice buffer 4 8));
                     nClients' = unat (Uint32 (slice buffer 8 12));
                     nTrustees' = unat (Uint32 (slice buffer 12 16));
                     trusteeId = unat (Uint32 (slice buffer 16 20));
                     trusteeState = initiateTrusteeState env trusteeId nClients' nTrustees' cellSize;
                     done = [TellPublicKey (LLD_PROTOCOL_VERSION env) (PublicKey trusteeState),
                             ReadPublicKeys]
                 in case store_keys env clientsPublicKeys 0 trusteeState of
                      None \<Rightarrow> (done @ [Close], Panicked)
                    | Some trusteeState \<Rightarrow>
                        if None \<in> set (ClientPublicKeys trusteeState)
                        then (done @ [Close], Panicked)
                        else
                          (case read2 of
                             None \<Rightarrow> (done @ [Close], Panicked)
                           | Some received2 \<Rightarrow>
                               (let buffer = read_into buffer received2 in
                                case shuffle_message env buffer of
                                  None \<Rightarrow> (done @ [Close], Panicked)
                                | Some message \<Rightarrow>
                                    if write_ok then (done @ [Write message], SleepsForever)
                                    else (done @ [Write message, Close], Panicked))))))"

text \<open>
  The shuffle as the specification words it, for a trustee that has picked the secret
  \<open>\<beta>\<close> and the permutation \<open>\<pi>\<close> (a list of indices): the base raised to \<open>\<beta>\<close>, and at
  position \<open>k\<close> the key of position \<open>\<pi> k\<close> raised to \<open>\<beta>\<close>.
\<close>

definition spec_shuffle ::
  "('pt, 'sk) trustee_env \<Rightarrow> 'sk \<Rightarrow> nat list \<Rightarrow> 'pt \<times> 'pt list \<Rightarrow> 'pt \<times> 'pt list" where
  "spec_shuffle env \<beta> \<pi> request =
     (case request of (base, keys) \<Rightarrow>
        (Point_Mul env base \<beta>,
         map (\<lambda>k. Point_Mul env (keys ! (\<pi> ! k)) \<beta>) [0..<length keys]))"

text \<open>Reading a shuffle frame back into its three fields.\<close>

definition parse_frame :: "bytes \<Rightarrow> bytes \<times> bytes \<times> bytes" where
  "parse_frame message =
     (let baseSize = unat (Uint32 (slice message 0 4));
          keysSize = unat (Uint32 (slice message (4 + baseSize) (8 + baseSize)));
          proofSize = unat (Uint32 (slice message (8 + baseSize + keysSize) (12 + baseSize + keysSize)))
      in (slice message 4 (4 + baseSize),
          slice message (8 + baseSize) (8 + baseSize + keysSize),
          slice message (12 + baseSize + keysSize) (12 + baseSize + keysSize + proofSize)))"

section \<open>Concrete inputs\<close>

text \<open>A roster with one relay, one client, one trustee and one node whose description
  does not parse; and the same roster with a second relay in place of that node.\<close>

definition example_descriptions :: "ServerIdentity \<Rightarrow> string" where
  "example_descriptions si =
     (if Address si = ''tcp://10.0.0.1:7000'' then ''relay''
      else if Address si = ''tcp://10.0.0.2:7000'' then ''client 0''
      else if Address si = ''tcp://10.0.0.3:7000'' then ''trustee 0''
      else ''spare'')"

definition example_group :: Group where
  "example_group =
     \<lparr>Roster_List =
        [\<lparr>Address = ''tcp://10.0.0.1:7000'', Public = ''r''\<rparr>,
         \<lparr>Address = ''tcp://10.0.0.2:7000'', Public = ''c''\<rparr>,
         \<lparr>Address = ''tcp://10.0.0.3:7000'', Public = ''t''\<rparr>,
         \<lparr>Address = ''tcp://10.0.0.4:7000'', Public = ''s''\<rparr>],
      GetDescription = example_descriptions\<rparr>"

definition two_relays_group :: Group where
  "two_relays_group =
     example_group\<lparr>GetDescription :=
       (\<lambda>si. if Address si = ''tcp://10.0.0.4:7000'' then ''relay'' else example_descriptions si)\<rparr>"

text \<open>
  A suite to evaluate the model on. Its scalars are those of the Ed25519 suite: integers
  modulo the order of the group, marshalled as 32 bytes, little-endian, and read back
  modulo the order. The random stream, the hash and the AEAD are stand-ins with the
  interface of the real ones: a linear congruential stream, a polynomial checksum of 32
  bytes, and a cipher that XORs the text with the repeated key and appends a 16-byte
  checksum of key, nonce and ciphertext as its tag.
\<close>

fun le_bytes :: "nat \<Rightarrow> int \<Rightarrow> bytes" where
  "le_bytes 0 v = []"
| "le_bytes (Suc n) v = word_of_int (v mod 256) # le_bytes n (v div 256)"

fun le_int :: "bytes \<Rightarrow> int" where
  "le_int [] = 0"
| "le_int (b # bs) = uint b + 256 * le_int bs"

definition ed25519_order :: int where
  "ed25519_order = 2 ^ 252 + 27742317777372353535851937790883648493"

definition checksum :: "bytes \<Rightarrow> int" where
  "checksum bs = fold (\<lambda>b acc. (acc * 257 + uint b + 1) mod 2 ^ 256) bs 7"

definition keystream :: "bytes \<Rightarrow> nat \<Rightarrow> bytes" where
  "keystream key n = map (\<lambda>i. key ! (i mod length key)) [0..<n]"

definition xor_bytes :: "bytes \<Rightarrow> bytes \<Rightarrow> bytes" where
  "xor_bytes a b = map (\<lambda>(x, y). xor x y) (zip a b)"

definition example_tag :: "bytes \<Rightarrow> bytes \<Rightarrow> bytes \<Rightarrow> bytes" where
  "example_tag key nonce c = le_bytes 16 (checksum (key @ nonce @ c))"

definition example_Seal :: "bytes \<Rightarrow> bytes \<Rightarrow> bytes \<Rightarrow> bytes" where
  "example_Seal key nonce x =
     (let c = xor_bytes x (keystream key (length x)) in c @ example_tag key nonce c)"

definition example_Open :: "bytes \<Rightarrow> bytes \<Rightarrow> bytes \<Rightarrow> bytes option" where
  "example_Open key nonce ct =
     (if length ct < 16 then None
      else (let c = take (length ct - 16) ct; t = drop (length ct - 16) ct in
            if t = example_tag key nonce c then Some (xor_bytes c (keystream key (length c)))
            else None))"

definition example_crypto :: "int crypto" where
  "example_crypto =
     \<lparr>order = ed25519_order,
      SetBytes_val = (\<lambda>b. le_int b mod ed25519_order),
      Marshal_val = (\<lambda>v. Some (le_bytes 32 v)),
      NewXOF = le_int,
      Pick_val = (\<lambda>x. ((x * 6364136223846793005 + 1442695040888963407) mod ed25519_order,
                        x * 6364136223846793005 + 1442695040888963407)),
      Sum256 = (\<lambda>b. le_bytes 32 (checksum b)),
      Seal = example_Seal,
      Open = example_Open\<rparr>"

text \<open>A state, as \<^const>\<open>NewEquivocation\<close> leaves it and \<^const>\<open>UpdateHistory\<close> advances
  it; and a round of two clients and two trustees in which client 1 owns the slot.\<close>

definition example_state :: "int EquivocationProtection" where
  "example_state = NewEquivocation example_crypto [] [1, 2, 3]"

definition example_pads :: "bytes list list" where
  "example_pads = [[[11, 12], [13]], [[21], [22, 23, 24]]]"

definition example_payloads :: "bytes list" where
  "example_payloads = [[0, 0, 0, 0], [222, 173, 190, 239]]"

text \<open>
  A suite for the trustee: the quadratic residues modulo 23, a group of order 11
  generated by 4. A point is marshalled as one byte; an array of points as the
  concatenation of its points. The protocol version is 1, and the secret picked for a
  name is a stand-in derived from the length of the name.
\<close>

definition example_point :: "byte \<Rightarrow> nat option" where
  "example_point b = (if 0 < unat b \<and> unat b < 23 then Some (unat b) else None)"

fun example_points :: "bytes \<Rightarrow> nat list option" where
  "example_points [] = Some []"
| "example_points (b # bs) =
     (case example_point b of
        None \<Rightarrow> None
      | Some p \<Rightarrow> (case example_points bs of None \<Rightarrow> None | Some ps \<Rightarrow> Some (p # ps)))"

definition example_env :: "(nat, nat) trustee_env" where
  "example_env =
     \<lparr>LLD_PROTOCOL_VERSION = 1,
      Point_Base = 4,
      Secret_Pick = (\<lambda>name. 1 + length name mod 10),
      Point_Mul = (\<lambda>p k. p ^ k mod 23),
      Point_UnmarshalBinary = (\<lambda>b. case b of [x] \<Rightarrow> example_point x | _ \<Rightarrow> None),
      Point_MarshalBinary = (\<lambda>p. Some [of_nat p]),
      UnMarshalPublicKeyArrayFromByteArray = example_points,
      MarshalPublicKeyArrayToByteArray = (\<lambda>ps. Some (map of_nat ps))\<rparr>"

text \<open>A handshake frame of version 1 (cell size 4, two clients, one trustee, trustee 0),
  the same frame with version 0, and a shuffle request with base 4 and the keys 16, 18.\<close>

definition example_handshake :: bytes where
  "example_handshake = [0, 0, 0, 1, 0, 0, 0, 4, 0, 0, 0, 2, 0, 0, 0, 1, 0, 0, 0, 0]"

definition old_handshake :: bytes where
  "old_handshake = [0, 0, 0, 0, 0, 0, 0, 4, 0, 0, 0, 2, 0, 0, 0, 1, 0, 0, 0, 0]"

definition example_request :: bytes where
  "example_request = [0, 0, 0, 1, 4, 0, 0, 0, 2, 16, 18]"

section \<open>Proofs: role assignment\<close>

subsection \<open>Splitting at spaces\<close>

lemma Split_from_nonempty: "Split_from w s \<noteq> []"
  by (induction s arbitrary: w) auto

lemma Join_Split_from: "Join (Split_from w s) = rev w @ s"
proof (induction s arbitrary: w)
  case Nil
  then show ?case by simp
next
  case (Cons c cs)
  show ?case
  proof (cases "c = CHR '' ''")
    case True
    obtain p ps where ps: "Split_from [] cs = p # ps"
      using Split_from_nonempty [of "[]" cs] by (cases "Split_from [] cs") auto
    have "Join (p # ps) = cs" using Cons.IH [of "[]"] ps by simp
    then show ?thesis using True ps by simp
  next
    case False
    then show ?thesis using Cons.IH [of "c # w"] by simp
  qed
qed

lemma Join_Split: "Join (Split s) = s"
  by (simp add: Split_def Join_Split_from)

lemma Split_from_no_space:
  "CHR '' '' \<notin> set s \<Longrightarrow> Split_from w s = [rev w @ s]"
  by (induction s arbitrary: w) auto

lemma Split_from_at_space:
  "CHR '' '' \<notin> set a \<Longrightarrow> Split_from w (a @ CHR '' '' # b) = (rev w @ a) # Split_from [] b"
  by (induction a arbitrary: w) auto

lemma Split_two:
  "CHR '' '' \<notin> set a \<Longrightarrow> CHR '' '' \<notin> set b \<Longrightarrow> Split (a @ CHR '' '' # b) = [a, b]"
  by (simp add: Split_def Split_from_at_space Split_from_no_space)

subsection \<open>What \<^const>\<open>Atoi\<close> accepts has no space\<close>

lemma digits_from_digits: "digits_from n s = Some m \<Longrightarrow> \<forall>c\<in>set s. is_digit c"
  by (induction s arbitrary: n) (auto split: if_splits)

lemma space_not_digit: "\<not> is_digit (CHR '' '')"
  by (simp add: is_digit_def)

lemma Atoi_no_space: "Atoi t = Some n \<Longrightarrow> CHR '' '' \<notin> set t"
  using space_not_digit
  by (auto simp: Atoi_def Let_def split: list.splits if_splits option.splits
      dest!: digits_from_digits)

subsection \<open>The descriptions that parse\<close>

text \<open>
  Claim C10. \<^const>\<open>parseDescription\<close> returns an identity for exactly three shapes of
  description: \<open>relay\<close>, which gives the role Relay with id 0; \<open>client\<close>, one space and a
  text that \<^const>\<open>Atoi\<close> accepts; \<open>trustee\<close>, one space and such a text; the id is then
  the integer parsed. Every other description returns an error, and \<open>relay 0\<close> is one of
  them.
\<close>

theorem parseDescription_accepts:
  "(parseDescription d = Inr i \<longleftrightarrow>
      (d = ''relay'' \<and> i = \<lparr>Role = Relay, Id = 0\<rparr>) \<or>
      (\<exists>t n. Atoi t = Some n \<and>
         ((d = ''client '' @ t \<and> i = \<lparr>Role = Client, Id = n\<rparr>) \<or>
          (d = ''trustee '' @ t \<and> i = \<lparr>Role = Trustee, Id = n\<rparr>))))
   \<and> parseDescription ''relay 0'' = Inl InvalidRole"
proof (intro conjI iffI)
  assume ok: "parseDescription d = Inr i"
  show "(d = ''relay'' \<and> i = \<lparr>Role = Relay, Id = 0\<rparr>) \<or>
      (\<exists>t n. Atoi t = Some n \<and>
         ((d = ''client '' @ t \<and> i = \<lparr>Role = Client, Id = n\<rparr>) \<or>
          (d = ''trustee '' @ t \<and> i = \<lparr>Role = Trustee, Id = n\<rparr>)))"
  proof (cases "length (Split d) = 1 \<and> Split d ! 0 = ''relay''")
    case True
    then have "Split d = [''relay'']" by (cases "Split d") auto
    then have "Join (Split d) = ''relay''" by simp
    then have "d = ''relay''" by (simp add: Join_Split)
    moreover have "i = \<lparr>Role = Relay, Id = 0\<rparr>"
      using ok True by (simp add: parseDescription_def)
    ultimately show ?thesis by blast
  next
    case False
    with ok have len: "length (Split d) = 2"
      by (auto simp: parseDescription_def Let_def split: if_splits)
    then obtain a b where ab: "Split d = [a, b]"
      by (cases "Split d"; cases "tl (Split d)") auto
    have d: "d = a @ CHR '' '' # b"
      using Join_Split [of d] ab by simp
    from ok False len ab obtain n where n: "Atoi b = Some n"
      by (auto simp: parseDescription_def Let_def split: option.splits)
    from ok False ab n have
      "(a = ''client'' \<and> i = \<lparr>Role = Client, Id = n\<rparr>) \<or>
       (a = ''trustee'' \<and> i = \<lparr>Role = Trustee, Id = n\<rparr>)"
      by (auto simp: parseDescription_def Let_def split: if_splits)
    with d n show ?thesis by auto
  qed
next
  assume "(d = ''relay'' \<and> i = \<lparr>Role = Relay, Id = 0\<rparr>) \<or>
      (\<exists>t n. Atoi t = Some n \<and>
         ((d = ''client '' @ t \<and> i = \<lparr>Role = Client, Id = n\<rparr>) \<or>
          (d = ''trustee '' @ t \<and> i = \<lparr>Role = Trustee, Id = n\<rparr>)))"
  then consider (relay) "d = ''relay''" "i = \<lparr>Role = Relay, Id = 0\<rparr>"
    | (client) t n where "Atoi t = Some n" "d = ''client '' @ t" "i = \<lparr>Role = Client, Id = n\<rparr>"
    | (trustee) t n where "Atoi t = Some n" "d = ''trustee '' @ t" "i = \<lparr>Role = Trustee, Id = n\<rparr>"
    by blast
  then show "parseDescription d = Inr i"
  proof cases
    case relay
    then show ?thesis by (simp add: parseDescription_def Split_def)
  next
    case client
    have "Split (''client'' @ CHR '' '' # t) = [''client'', t]"
      by (rule Split_two) (use client(1) in \<open>auto dest: Atoi_no_space\<close>)
    then show ?thesis using client by (simp add: parseDescription_def)
  next
    case trustee
    have "Split (''trustee'' @ CHR '' '' # t) = [''trustee'', t]"
      by (rule Split_two) (use trustee(1) in \<open>auto dest: Atoi_no_space\<close>)
    then show ?thesis using trustee by (simp add: parseDescription_def)
  qed
next
  show "parseDescription ''relay 0'' = Inl InvalidRole"
    by (simp add: parseDescription_def Split_def Atoi_def is_digit_def)
qed

theorem parseDescription_accepts_witness:
  "parseDescription ''trustee 12'' = Inr \<lparr>Role = Trustee, Id = 12\<rparr> \<and>
   parseDescription ''relay 0'' \<noteq> Inr \<lparr>Role = Relay, Id = 0\<rparr>"
proof -
  have a: "Atoi ''12'' = Some 12" by (simp add: Atoi_def is_digit_def)
  show ?thesis
    using parseDescription_accepts [of "''trustee 12''" "\<lparr>Role = Trustee, Id = 12\<rparr>"]
      parseDescription_accepts [of "''relay 0''" "\<lparr>Role = Relay, Id = 0\<rparr>"] a
    by auto
qed

subsection \<open>The counts that \<^const>\<open>mapIdentities\<close> checks\<close>

lemma countRoles_filter:
  "countRoles m (t, c, r) =
     (t + length (filter (\<lambda>(a, v). Role v = Trustee) m),
      c + length (filter (\<lambda>(a, v). Role v = Client) m),
      r + length (filter (\<lambda>(a, v). Role v = Relay) m))"
  by (induction m "(t, c, r)" arbitrary: t c r rule: countRoles.induct)
    (auto split: PriFiRole.splits)

lemma readNodes_distinct:
  "distinct (map fst m) \<Longrightarrow> distinct (map fst (fst (readNodes g ns (m, relay))))"
  by (induction ns arbitrary: m relay) (auto split: sum.splits simp: distinct_update)

lemma holders_Cons:
  "a \<notin> fst ` set m \<Longrightarrow>
   holders role (map_of ((a, v) # m)) =
     (if Role v = role then insert a (holders role (map_of m)) else holders role (map_of m))"
  by (auto simp: holders_def map_of_eq_None_iff [symmetric] split: if_splits)

lemma holders_keys: "holders role (map_of m) \<subseteq> fst ` set m"
  by (auto simp: holders_def dest: map_of_SomeD intro: rev_image_eqI)

lemma finite_holders: "finite (holders role (map_of m))"
  using holders_keys by (rule finite_subset) simp

lemma card_holders:
  "distinct (map fst m) \<Longrightarrow>
   card (holders role (map_of m)) = length (filter (\<lambda>(a, v). Role v = role) m)"
proof (induction m)
  case Nil
  then show ?case by (simp add: holders_def)
next
  case (Cons p m)
  obtain a v where p: "p = (a, v)" by (cases p)
  from Cons.prems p have fresh: "a \<notin> fst ` set m" and d: "distinct (map fst m)" by auto
  from fresh have "a \<notin> holders role (map_of m)" using holders_keys by blast
  then show ?case
    using Cons.IH [OF d] fresh p
    by (simp add: holders_Cons finite_holders del: map_of.simps)
qed

text \<open>
  Claim C8. \<^const>\<open>mapIdentities\<close> returns the map and the relay exactly when the role
  assignment it has parsed from the roster holds one address with the role Relay, at
  least one with the role Client and at least one with the role Trustee; for every other
  combination of counts it ends the process through \<^verbatim>\<open>log.Fatal\<close>.
\<close>

theorem mapIdentities_role_counts:
  "mapIdentities grp =
     (if card (holders Relay (assignment grp)) = 1 \<and>
         card (holders Client (assignment grp)) \<ge> 1 \<and>
         card (holders Trustee (assignment grp)) \<ge> 1
      then Inr (readNodes grp (Roster_List grp) ([], zero_ServerIdentity))
      else Inl Fatal)"
proof -
  obtain m relay where
    rn: "readNodes grp (Roster_List grp) ([], zero_ServerIdentity) = (m, relay)"
    by (cases "readNodes grp (Roster_List grp) ([], zero_ServerIdentity)")
  have "distinct (map fst (fst (readNodes grp (Roster_List grp) ([], zero_ServerIdentity))))"
    by (rule readNodes_distinct) simp
  then have d: "distinct (map fst m)" using rn by simp
  have a: "assignment grp = map_of m" by (simp add: assignment_def rn)
  show ?thesis
    unfolding mapIdentities_def rn a
    by (simp add: countRoles_filter card_holders [OF d] Suc_le_eq)
qed

theorem mapIdentities_role_counts_witness:
  "(\<exists>m. mapIdentities example_group = Inr (m, \<lparr>Address = ''tcp://10.0.0.1:7000'', Public = ''r''\<rparr>)) \<and>
   card (holders Relay (assignment example_group)) = 1 \<and>
   card (holders Client (assignment example_group)) \<ge> 1 \<and>
   card (holders Trustee (assignment example_group)) \<ge> 1 \<and>
   mapIdentities two_relays_group = Inl Fatal \<and>
   \<not> (card (holders Relay (assignment two_relays_group)) = 1 \<and>
      card (holders Client (assignment two_relays_group)) \<ge> 1 \<and>
      card (holders Trustee (assignment two_relays_group)) \<ge> 1)"
proof -
  have ok: "\<exists>m. mapIdentities example_group = Inr (m, \<lparr>Address = ''tcp://10.0.0.1:7000'', Public = ''r''\<rparr>)"
    by (simp add: mapIdentities_def example_group_def example_descriptions_def
        parseDescription_def Split_def Atoi_def is_digit_def)
  have bad: "mapIdentities two_relays_group = Inl Fatal"
    by (simp add: mapIdentities_def two_relays_group_def example_group_def
        example_descriptions_def parseDescription_def Split_def Atoi_def is_digit_def)
  show ?thesis
    using ok bad mapIdentities_role_counts [of example_group]
      mapIdentities_role_counts [of two_relays_group]
    by (auto split: if_splits)
qed

section \<open>Proofs: equivocation protection\<close>

subsection \<open>The store of scalars\<close>

lemma Scalar_eq: "Scalar e = (length (scalars e), e\<lparr>scalars := scalars e @ [0]\<rparr>)"
  by (simp add: Scalar_def)

lemma hashInGroup_eq:
  "hashInGroup s data e = (length (scalars e), e\<lparr>scalars := scalars e @ [SetBytes_val s data]\<rparr>)"
  by (simp add: hashInGroup_def Scalar_def SetBytes_def put_def)

lemma Scalar_SetBytes_eq: "Scalar_SetBytes s = hashInGroup s"
  by (intro ext) (simp add: hashInGroup_def Scalar_SetBytes_def)

lemma each_scalar_hashInGroup:
  "each_scalar (hashInGroup s) ps e =
     ([length (scalars e)..<length (scalars e) + length ps],
      e\<lparr>scalars := scalars e @ map (SetBytes_val s) ps\<rparr>)"
proof (induction ps arbitrary: e)
  case Nil
  then show ?case by simp
next
  case (Cons p ps)
  let ?e1 = "e\<lparr>scalars := scalars e @ [SetBytes_val s p]\<rparr>"
  have h: "hashInGroup s p e = (length (scalars e), ?e1)"
    by (rule hashInGroup_eq)
  have u: "length (scalars e) # [Suc (length (scalars e))..<Suc (length (scalars e)) + length ps]
             = [length (scalars e)..<length (scalars e) + length (p # ps)]"
    by (simp add: upt_conv_Cons del: upt_Suc)
  have "each_scalar (hashInGroup s) (p # ps) e =
          (length (scalars e) # [Suc (length (scalars e))..<Suc (length (scalars e)) + length ps],
           ?e1\<lparr>scalars := scalars ?e1 @ map (SetBytes_val s) ps\<rparr>)"
    using Cons.IH [of ?e1] by (simp only: each_scalar.simps h Let_def split) simp
  then show ?case by (simp only: u) simp
qed

lemma get_put_same: "r < length (scalars e) \<Longrightarrow> get r (put r v e) = v"
  by (simp add: get_def put_def)

lemma get_put_other: "a \<noteq> r \<Longrightarrow> get a (put r v e) = get a e"
  by (simp add: get_def put_def)

lemma get_put_in:
  "a \<in> set as \<Longrightarrow> r \<notin> set as \<Longrightarrow> get a (put r v e) = get a e"
  by (rule get_put_other) auto

lemma put_put: "put r v (put r w e) = put r v e"
  by (simp add: put_def)

lemma length_put: "length (scalars (put r v e)) = length (scalars e)"
  by (simp add: put_def)

lemma add_each_fold:
  "r \<notin> set as \<Longrightarrow> r < length (scalars e) \<Longrightarrow>
   add_each s r as e = put r (fold (\<lambda>a v. (v + get a e) mod order s) as (get r e)) e"
proof (induction as arbitrary: e)
  case Nil
  then show ?case by (simp add: put_def get_def)
next
  case (Cons a as)
  let ?e1 = "put r ((get r e + get a e) mod order s) e"
  have r: "r \<notin> set as" and ar: "a \<noteq> r" using Cons.prems by auto
  have len: "r < length (scalars ?e1)" using Cons.prems by (simp add: length_put)
  have same: "fold (\<lambda>a v. (v + get a ?e1) mod order s) as w = fold (\<lambda>a v. (v + get a e) mod order s) as w" for w
    by (rule fold_cong) (use r in \<open>auto simp: get_put_in\<close>)
  show ?case
    using Cons.IH [OF r len] Cons.prems
    by (simp add: Add_def same get_put_same put_put)
qed

lemma fold_add_mod:
  "fold (\<lambda>a v. (v + f a) mod q) as (v0 mod q) = (v0 + sum_list (map f as)) mod (q::int)"
proof (induction as arbitrary: v0)
  case Nil
  then show ?case by simp
next
  case (Cons a as)
  have "(v0 mod q + f a) mod q = (v0 + f a) mod q" by (simp add: mod_add_left_eq)
  then show ?case using Cons.IH [of "v0 + f a"] by (simp add: add.assoc)
qed

lemma nth_block:
  "map (\<lambda>a. (xs @ vs @ ys) ! a) [length xs..<length xs + length vs] = vs"
  by (rule nth_equalityI) (auto simp: nth_append)

lemma get_upd [simp]: "get a (e\<lparr>scalars := xs\<rparr>) = xs ! a"
  by (simp add: get_def)

lemma put_upd [simp]: "put a v (e\<lparr>scalars := xs\<rparr>) = e\<lparr>scalars := xs[a := v]\<rparr>"
  by (simp add: put_def)

lemma add_each_block:
  assumes as: "as = [length xs..<length xs + length vs]"
    and r: "r = length xs + length vs + length ys"
  shows "add_each s r as (e\<lparr>scalars := xs @ vs @ ys @ [0]\<rparr>) =
         e\<lparr>scalars := xs @ vs @ ys @ [sum_list vs mod order s]\<rparr>"
proof -
  let ?e = "e\<lparr>scalars := xs @ vs @ ys @ [0]\<rparr>"
  have notin: "r \<notin> set as" using as r by simp
  have len: "r < length (scalars ?e)" using r by simp
  have g: "get r ?e = 0" using r by (simp add: nth_append)
  have m: "map (\<lambda>a. get a ?e) as = vs"
    using nth_block [of xs vs "ys @ [0]"] as by simp
  have "fold (\<lambda>a v. (v + get a ?e) mod order s) as (0 mod order s) =
          (0 + sum_list (map (\<lambda>a. get a ?e) as)) mod order s"
    by (rule fold_add_mod)
  then have f: "fold (\<lambda>a v. (v + get a ?e) mod order s) as (get r ?e) = sum_list vs mod order s"
    using g m by simp
  have "add_each s r as ?e = put r (sum_list vs mod order s) ?e"
    using add_each_fold [OF notin len, of s] f by simp
  also have "\<dots> = e\<lparr>scalars := xs @ vs @ ys @ [sum_list vs mod order s]\<rparr>"
    using r by (simp add: list_update_append)
  finally show ?thesis .
qed

text \<open>The part common to the client and the trustee: hash, then sum.\<close>

lemma hash_and_sum:
  "add_each s (length (scalars e) + length ps)
     [length (scalars e)..<length (scalars e) + length ps]
     (Zero (length (scalars e) + length ps)
        (e\<lparr>scalars := scalars e @ map (SetBytes_val s) ps @ [0]\<rparr>)) =
   e\<lparr>scalars := scalars e @ map (SetBytes_val s) ps @ [scalar_sum s ps]\<rparr>"
proof -
  let ?vs = "map (SetBytes_val s) ps"
  have z: "Zero (length (scalars e) + length ps) (e\<lparr>scalars := scalars e @ ?vs @ [0]\<rparr>) =
        e\<lparr>scalars := scalars e @ ?vs @ [0]\<rparr>"
    by (simp add: Zero_def list_update_append)
  have "add_each s (length (scalars e) + length ps)
          [length (scalars e)..<length (scalars e) + length ps]
          (e\<lparr>scalars := scalars e @ ?vs @ [] @ [0]\<rparr>) =
        e\<lparr>scalars := scalars e @ ?vs @ [] @ [sum_list ?vs mod order s]\<rparr>"
    by (rule add_each_block) simp_all
  then show ?thesis
    by (simp add: z scalar_sum_def)
qed

lemma Mul_last:
  "valid e \<Longrightarrow>
   Mul s (length (scalars e) + length ps) (length (scalars e) + length ps) (history e)
     (e\<lparr>scalars := scalars e @ map f ps @ [v]\<rparr>) =
   e\<lparr>scalars := scalars e @ map f ps @ [(v * get (history e) e) mod order s]\<rparr>"
  by (simp add: Mul_def valid_def nth_append list_update_append get_def)


lemma ClientEncryptPayload_not_owner_eq:
  assumes "valid e"
  shows "ClientEncryptPayload s False x p_j e =
     ((case Marshal_val s (kappa_plain s (get (history e) e) p_j) of
         None \<Rightarrow> Inl LogFatal | Some kappa_i_bytes \<Rightarrow> Inr (x, kappa_i_bytes)),
      e\<lparr>scalars := scalars e @ map (SetBytes_val s) p_j @ [kappa_plain s (get (history e) e) p_j]\<rparr>)"
  unfolding ClientEncryptPayload_def kappa_plain_def
  by (simp add: each_scalar_hashInGroup Scalar_eq hash_and_sum Mul_last [OF assms]
      MarshalBinary_def nth_append split: option.splits)

lemma TrusteeGetContribution_eq:
  "TrusteeGetContribution s s_i e =
     ((case Marshal_val s (scalar_sum s s_i) of
         None \<Rightarrow> Inl LogFatal | Some kappa_j_bytes \<Rightarrow> Inr kappa_j_bytes),
      e\<lparr>scalars := scalars e @ map (SetBytes_val s) s_i @ [scalar_sum s s_i]\<rparr>)"
  unfolding TrusteeGetContribution_def
  by (simp add: each_scalar_hashInGroup Scalar_eq hash_and_sum
      MarshalBinary_def nth_append split: option.splits)

lemma randomScalar_eq:
  "randomScalar s e =
     (length (scalars e),
      e\<lparr>scalars := scalars e @ [fst (Pick_val s (randomness e))],
        randomness := snd (Pick_val s (randomness e))\<rparr>)"
  by (simp add: randomScalar_def Scalar_eq Pick_def split_beta)

lemma ClientEncryptPayload_owner_fst:
  assumes "valid e"
  shows "fst (ClientEncryptPayload s True x p_j e) =
     (case Marshal_val s (fst (Pick_val s (randomness e))) of
        None \<Rightarrow> Inl LogFatal
      | Some k_i_bytes \<Rightarrow>
          if length k_i_bytes \<in> {16, 24, 32} then
            (case Marshal_val s ((fst (Pick_val s (randomness e)) +
                                   kappa_plain s (get (history e) e) p_j) mod order s) of
               None \<Rightarrow> Inl LogFatal
             | Some kappa_i_bytes \<Rightarrow> Inr (Seal s k_i_bytes (make_bytes 12) x, kappa_i_bytes))
          else Inl Panic)"
  unfolding ClientEncryptPayload_def kappa_plain_def
  by (simp add: each_scalar_hashInGroup Scalar_eq hash_and_sum Mul_last [OF assms]
      randomScalar_eq MarshalBinary_def nth_append aes_NewCipher_def cipher_NewGCM_def
      Add_def list_update_append Let_def get_def put_def
      split: option.splits)

lemma ClientEncryptPayload_grows:
  assumes "valid e"
  shows "grows e (snd (ClientEncryptPayload s slotOwner x p_j e))"
  unfolding ClientEncryptPayload_def grows_def
  by (simp add: each_scalar_hashInGroup Scalar_eq hash_and_sum Mul_last [OF assms]
      randomScalar_eq MarshalBinary_def nth_append aes_NewCipher_def cipher_NewGCM_def
      Add_def list_update_append Let_def get_def put_def
      split: option.splits)

lemma TrusteeGetContribution_grows:
  "grows e (snd (TrusteeGetContribution s s_i e))"
  by (simp add: TrusteeGetContribution_eq grows_def)

subsection \<open>The relay\<close>

lemma RelayDecode_sums:
  assumes v: "valid e"
  shows "(let (trustee_kappa_j, e) = each_scalar (Scalar_SetBytes s) tcs e;
          (client_kappa_i, e) = each_scalar (Scalar_SetBytes s) ccs e;
          (sumTrustees, e) = Scalar e;
          e = Zero sumTrustees e;
          e = add_each s sumTrustees trustee_kappa_j e;
          (sumClients, e) = Scalar e;
          e = Zero sumClients e;
          e = add_each s sumClients client_kappa_i e;
          e = Mul s sumTrustees sumTrustees (history e) e;
          prod = sumTrustees;
          e = Sub s sumClients sumClients prod e;
          k_i = sumClients
      in F k_i e) =
     F (length (scalars e) + length tcs + length ccs + 1)
       (e\<lparr>scalars := scalars e @ map (SetBytes_val s) tcs @ map (SetBytes_val s) ccs @
            [(scalar_sum s tcs * get (history e) e) mod order s,
             relay_key s (get (history e) e) tcs ccs]\<rparr>)"
proof -
  let ?n = "length (scalars e)"
  let ?T = "map (SetBytes_val s) tcs"
  let ?C = "map (SetBytes_val s) ccs"
  let ?A1 = "[?n..<?n + length tcs]"
  let ?e1 = "e\<lparr>scalars := scalars e @ ?T\<rparr>"
  let ?A2 = "[?n + length tcs..<?n + length tcs + length ccs]"
  let ?e2 = "e\<lparr>scalars := scalars e @ ?T @ ?C\<rparr>"
  let ?r1 = "?n + length tcs + length ccs"
  let ?e3 = "e\<lparr>scalars := scalars e @ ?T @ ?C @ [0]\<rparr>"
  let ?sT = "scalar_sum s tcs"
  let ?sC = "scalar_sum s ccs"
  let ?e4 = "e\<lparr>scalars := scalars e @ ?T @ ?C @ [?sT]\<rparr>"
  let ?r2 = "?n + length tcs + length ccs + 1"
  let ?e5 = "e\<lparr>scalars := scalars e @ ?T @ ?C @ [?sT, 0]\<rparr>"
  let ?e6 = "e\<lparr>scalars := scalars e @ ?T @ ?C @ [?sT, ?sC]\<rparr>"
  let ?pv = "(?sT * get (history e) e) mod order s"
  let ?e7 = "e\<lparr>scalars := scalars e @ ?T @ ?C @ [?pv, ?sC]\<rparr>"
  let ?e8 = "e\<lparr>scalars := scalars e @ ?T @ ?C @ [?pv, relay_key s (get (history e) e) tcs ccs]\<rparr>"
  have 1: "each_scalar (Scalar_SetBytes s) tcs e = (?A1, ?e1)"
    by (simp add: Scalar_SetBytes_eq each_scalar_hashInGroup)
  have 2: "each_scalar (Scalar_SetBytes s) ccs ?e1 = (?A2, ?e2)"
    by (simp add: Scalar_SetBytes_eq each_scalar_hashInGroup)
  have 3: "Scalar ?e2 = (?r1, ?e3)"
    by (simp add: Scalar_eq)
  have 4: "Zero ?r1 ?e3 = ?e3"
    by (simp add: Zero_def list_update_append)
  have 5: "add_each s ?r1 ?A1 ?e3 = ?e4"
    unfolding scalar_sum_def by (rule add_each_block) simp_all
  have 6: "Scalar ?e4 = (?r2, ?e5)"
    by (simp add: Scalar_eq)
  have 7: "Zero ?r2 ?e5 = ?e5"
    by (simp add: Zero_def list_update_append)
  have "add_each s ?r2 ?A2 (e\<lparr>scalars := (scalars e @ ?T) @ ?C @ [?sT] @ [0]\<rparr>) =
        e\<lparr>scalars := (scalars e @ ?T) @ ?C @ [?sT] @ [sum_list ?C mod order s]\<rparr>"
    by (rule add_each_block) simp_all
  then have 8: "add_each s ?r2 ?A2 ?e5 = ?e6"
    by (simp add: scalar_sum_def)
  have 9: "Mul s ?r1 ?r1 (history ?e6) ?e6 = ?e7"
    using v by (simp add: Mul_def valid_def nth_append list_update_append get_def)
  have 10: "Sub s ?r2 ?r2 ?r1 ?e7 = ?e8"
    by (simp add: Sub_def nth_append list_update_append relay_key_def)
  show ?thesis
    by (simp only: Let_def prod.case 1 2 3 4 5 6 7 8 9 10)
qed

lemma RelayDecode_eq:
  assumes v: "valid e"
  shows "RelayDecode s ct tcs ccs e =
     (relay_result s ct (relay_key s (get (history e) e) tcs ccs),
      e\<lparr>scalars := scalars e @ map (SetBytes_val s) tcs @ map (SetBytes_val s) ccs @
            [(scalar_sum s tcs * get (history e) e) mod order s,
             relay_key s (get (history e) e) tcs ccs]\<rparr>)"
  unfolding RelayDecode_def
  apply (subst RelayDecode_sums [OF v])
  apply (simp add: MarshalBinary_def relay_result_def nth_append aes_NewCipher_def
      cipher_NewGCM_def make_bytes_def split: option.splits)
  done

lemma RelayDecode_grows: "valid e \<Longrightarrow> grows e (snd (RelayDecode s ct tcs ccs e))"
  by (simp add: RelayDecode_eq grows_def)

subsection \<open>The calls of a round\<close>

lemma grows_refl: "grows e e"
  by (simp add: grows_def)

lemma grows_trans: "grows e e' \<Longrightarrow> grows e' e'' \<Longrightarrow> grows e e''"
  by (auto simp: grows_def)

lemma grows_valid: "grows e e' \<Longrightarrow> valid e \<Longrightarrow> valid e'"
  by (auto simp: grows_def valid_def)

lemma grows_history: "grows e e' \<Longrightarrow> valid e \<Longrightarrow> get (history e') e' = get (history e) e"
  by (auto simp: grows_def valid_def get_def nth_append)

lemma sound_order: "sound_crypto s \<Longrightarrow> 0 < order s"
  by (simp add: sound_crypto_def)

lemma sound_marshal:
  assumes "sound_crypto s" "0 \<le> v" "v < order s"
  obtains b where "Marshal_val s v = Some b" "length b \<in> {16, 24, 32}" "SetBytes_val s b = v"
  using assms unfolding sound_crypto_def by blast

lemma sound_marshal_mod:
  assumes "sound_crypto s"
  obtains b where "Marshal_val s (v mod order s) = Some b" "length b \<in> {16, 24, 32}"
    "SetBytes_val s b = v mod order s"
proof -
  have "0 \<le> v mod order s" "v mod order s < order s"
    using sound_order [OF assms] by simp_all
  then show ?thesis using sound_marshal [OF assms] that by blast
qed

lemma sound_pick: "sound_crypto s \<Longrightarrow> 0 \<le> fst (Pick_val s x) \<and> fst (Pick_val s x) < order s"
  by (simp add: sound_crypto_def)

lemma sound_open: "sound_crypto s \<Longrightarrow> Open s key nonce (Seal s key nonce x) = Some x"
  by (simp add: sound_crypto_def)

lemma client_call_ok:
  assumes s: "sound_crypto s" and v: "valid e"
  shows "\<exists>out. fst (ClientEncryptPayload s slotOwner x p_j e) = Inr out \<and>
               client_ok s (get (history e) e) (slotOwner, x, p_j) out"
proof (cases slotOwner)
  case False
  obtain b where b: "Marshal_val s (kappa_plain s (get (history e) e) p_j) = Some b"
      "SetBytes_val s b = kappa_plain s (get (history e) e) p_j"
    unfolding kappa_plain_def using sound_marshal_mod [OF s] by metis
  show ?thesis
    using False b by (simp add: ClientEncryptPayload_not_owner_eq [OF v] client_ok_def)
next
  case True
  let ?k = "fst (Pick_val s (randomness e))"
  have k: "0 \<le> ?k" "?k < order s" using sound_pick [OF s] by simp_all
  obtain kb where kb: "Marshal_val s ?k = Some kb" "length kb \<in> {16, 24, 32}"
    using sound_marshal [OF s k] by metis
  obtain b where b: "Marshal_val s ((?k + kappa_plain s (get (history e) e) p_j) mod order s) = Some b"
      "SetBytes_val s b = (?k + kappa_plain s (get (history e) e) p_j) mod order s"
    using sound_marshal_mod [OF s] by metis
  have "fst (ClientEncryptPayload s True x p_j e) = Inr (Seal s kb (make_bytes 12) x, b)"
    using kb b by (simp add: ClientEncryptPayload_owner_fst [OF v])
  moreover have "client_ok s (get (history e) e) (True, x, p_j) (Seal s kb (make_bytes 12) x, b)"
    unfolding client_ok_def using k kb b by auto
  ultimately show ?thesis using True by simp
qed

lemma clients_encrypt_ok:
  assumes s: "sound_crypto s"
  shows "valid e \<Longrightarrow>
         \<exists>outs e'. clients_encrypt s calls e = (Inr outs, e') \<and> grows e e' \<and>
                   list_all2 (client_ok s (get (history e) e)) calls outs"
proof (induction calls arbitrary: e)
  case Nil
  then show ?case by (simp add: grows_refl)
next
  case (Cons c calls)
  obtain slotOwner x p_j where c: "c = (slotOwner, x, p_j)" by (cases c)
  let ?r = "ClientEncryptPayload s slotOwner x p_j e"
  obtain out where out: "fst ?r = Inr out" "client_ok s (get (history e) e) (slotOwner, x, p_j) out"
    using client_call_ok [OF s Cons.prems] by blast
  have g: "grows e (snd ?r)" by (rule ClientEncryptPayload_grows [OF Cons.prems])
  have v1: "valid (snd ?r)" by (rule grows_valid [OF g Cons.prems])
  have h1: "get (history (snd ?r)) (snd ?r) = get (history e) e"
    by (rule grows_history [OF g Cons.prems])
  obtain outs e' where rest: "clients_encrypt s calls (snd ?r) = (Inr outs, e')"
      "grows (snd ?r) e'" "list_all2 (client_ok s (get (history e) e)) calls outs"
    using Cons.IH [OF v1] h1 by auto
  have r: "?r = (Inr out, snd ?r)" using out(1) by (simp add: prod_eq_iff)
  have "clients_encrypt s (c # calls) e = (Inr (out # outs), e')"
    unfolding c clients_encrypt.simps by (subst r) (simp add: rest(1))
  then show ?case
    using grows_trans [OF g rest(2)] out(2) rest(3) c by auto
qed

lemma trustees_contribute_ok:
  assumes s: "sound_crypto s"
  shows "\<exists>outs e'. trustees_contribute s cols e = (Inr outs, e') \<and> grows e e' \<and>
                   map (SetBytes_val s) outs = map (scalar_sum s) cols"
proof (induction cols arbitrary: e)
  case Nil
  then show ?case by (simp add: grows_refl)
next
  case (Cons c cols)
  let ?e1 = "snd (TrusteeGetContribution s c e)"
  obtain b where b: "Marshal_val s (scalar_sum s c) = Some b" "SetBytes_val s b = scalar_sum s c"
    unfolding scalar_sum_def using sound_marshal_mod [OF s] by metis
  have r: "TrusteeGetContribution s c e = (Inr b, ?e1)"
    using b by (simp add: TrusteeGetContribution_eq)
  obtain outs e' where rest: "trustees_contribute s cols ?e1 = (Inr outs, e')"
      "grows ?e1 e'" "map (SetBytes_val s) outs = map (scalar_sum s) cols"
    using Cons.IH [of ?e1] by auto
  have "trustees_contribute s (c # cols) e = (Inr (b # outs), e')"
    unfolding trustees_contribute.simps by (subst r) (simp add: rest(1))
  then show ?case
    using grows_trans [OF TrusteeGetContribution_grows rest(2)] b rest(3) by auto
qed

subsection \<open>The key the relay recovers\<close>

lemma sum_list_mod_inner:
  "sum_list (map (\<lambda>x. f x mod q) xs) mod q = sum_list (map f xs) mod (q::int)"
proof (induction xs)
  case Nil
  then show ?case by simp
next
  case (Cons x xs)
  have "(f x mod q + sum_list (map (\<lambda>x. f x mod q) xs)) mod q =
        (f x + sum_list (map (\<lambda>x. f x mod q) xs) mod q) mod q"
    by (simp add: mod_simps)
  also have "\<dots> = (f x + sum_list (map f xs)) mod q"
    by (simp add: Cons.IH mod_simps)
  finally show ?case by simp
qed

lemma sum_rows_columns:
  fixes f :: "'a \<Rightarrow> int"
  assumes "\<forall>row\<in>set pads. length row = m"
  shows "sum_list (map (\<lambda>row. sum_list (map f row)) pads) =
         sum_list (map (\<lambda>j. sum_list (map (\<lambda>row. f (row ! j)) pads)) [0..<m])"
  using assms
proof (induction pads)
  case Nil
  then show ?case by simp
next
  case (Cons row pads)
  have len: "length row = m" using Cons.prems by simp
  have "map (\<lambda>j. f (row ! j)) [0..<m] = map f row"
    using len by (intro nth_equalityI) simp_all
  then have row: "sum_list (map (\<lambda>j. f (row ! j)) [0..<m]) = sum_list (map f row)"
    by simp
  have "sum_list (map (\<lambda>j. sum_list (map (\<lambda>row. f (row ! j)) (row # pads))) [0..<m]) =
        sum_list (map (\<lambda>j. f (row ! j) + sum_list (map (\<lambda>row. f (row ! j)) pads)) [0..<m])"
    by simp
  also have "\<dots> = sum_list (map (\<lambda>j. f (row ! j)) [0..<m]) +
        sum_list (map (\<lambda>j. sum_list (map (\<lambda>row. f (row ! j)) pads)) [0..<m])"
    by (rule sum_list_addf)
  finally show ?case using Cons row by simp
qed

lemma kappa_plain_sum:
  "sum_list (map (kappa_plain s h) pads) mod order s = (all_pads_sum s pads * h) mod order s"
proof -
  have "sum_list (map (kappa_plain s h) pads) mod order s =
        sum_list (map (\<lambda>row. scalar_sum s row * h) pads) mod order s"
    unfolding kappa_plain_def by (rule sum_list_mod_inner)
  also have "\<dots> = (sum_list (map (scalar_sum s) pads) * h) mod order s"
    by (simp add: sum_list_mult_const)
  also have "\<dots> = ((sum_list (map (scalar_sum s) pads) mod order s) * h) mod order s"
    by (simp add: mod_simps)
  also have "sum_list (map (scalar_sum s) pads) mod order s = all_pads_sum s pads mod order s"
    unfolding scalar_sum_def all_pads_sum_def by (rule sum_list_mod_inner)
  finally show ?thesis by (simp add: mod_simps)
qed

lemma trustee_sum:
  assumes "\<forall>row\<in>set pads. length row = m"
    and "map (SetBytes_val s) sigmas = map (scalar_sum s) (map (\<lambda>j. map (\<lambda>p_i. p_i ! j) pads) [0..<m])"
  shows "scalar_sum s sigmas = all_pads_sum s pads mod order s"
proof -
  have "scalar_sum s sigmas =
        sum_list (map (\<lambda>j. sum_list (map (\<lambda>row. SetBytes_val s (row ! j)) pads) mod order s) [0..<m])
          mod order s"
    using assms(2) by (simp add: scalar_sum_def o_def)
  also have "\<dots> = sum_list (map (\<lambda>j. sum_list (map (\<lambda>row. SetBytes_val s (row ! j)) pads)) [0..<m])
          mod order s"
    by (rule sum_list_mod_inner)
  also have "\<dots> = all_pads_sum s pads mod order s"
    unfolding all_pads_sum_def using sum_rows_columns [OF assms(1), of "SetBytes_val s"] by simp
  finally show ?thesis .
qed

lemma relay_key_recovers:
  assumes k: "0 \<le> k" "k < order s"
    and c: "scalar_sum s kappas = (k + sum_list (map (kappa_plain s h) pads)) mod order s"
    and t: "scalar_sum s sigmas = all_pads_sum s pads mod order s"
  shows "relay_key s h sigmas kappas = k"
proof -
  let ?q = "order s"
  let ?X = "sum_list (map (kappa_plain s h) pads)"
  let ?S = "all_pads_sum s pads"
  have "relay_key s h sigmas kappas = ((k + ?X) mod ?q - ((?S mod ?q) * h) mod ?q) mod ?q"
    by (simp add: relay_key_def c t)
  also have "\<dots> = (k + (?X - ?S * h)) mod ?q"
    by (simp add: mod_simps algebra_simps)
  also have "\<dots> = (k + (?X - ?S * h) mod ?q) mod ?q"
    by (rule mod_add_right_eq [symmetric])
  also have "(?X - ?S * h) mod ?q = (?X mod ?q - (?S * h) mod ?q) mod ?q"
    by (rule mod_diff_eq [symmetric])
  also have "\<dots> = 0"
    by (simp add: kappa_plain_sum)
  finally show ?thesis using k by simp
qed

lemma non_owner_kappas:
  "list_all2 (client_ok s h) calls outs \<Longrightarrow> \<forall>c\<in>set calls. \<not> fst c \<Longrightarrow>
   map (\<lambda>out. SetBytes_val s (snd out)) outs = map (\<lambda>c. kappa_plain s h (snd (snd c))) calls"
  by (induction rule: list_all2_induct) (auto simp: client_ok_def)

lemma one_owner_kappas:
  assumes all: "list_all2 (client_ok s h) calls outs"
    and calls: "calls = map (\<lambda>i. (i = owner, payloads ! i, pads ! i)) [0..<length pads]"
    and owner: "owner < length pads"
  shows "\<exists>k k_i_bytes. 0 \<le> k \<and> k < order s \<and> Marshal_val s k = Some k_i_bytes \<and>
           length k_i_bytes \<in> {16, 24, 32} \<and>
           fst (outs ! owner) = Seal s k_i_bytes (make_bytes 12) (payloads ! owner) \<and>
           scalar_sum s (map snd outs) = (k + sum_list (map (kappa_plain s h) pads)) mod order s"
proof -
  let ?call = "\<lambda>i. (i = owner, payloads ! i, pads ! i)"
  let ?A = "map ?call [0..<owner]"
  let ?B = "map ?call [Suc owner..<length pads]"
  have idx: "[0..<length pads] = [0..<owner] @ owner # [Suc owner..<length pads]"
  proof -
    have "[0..<owner + (length pads - owner)] = [0..<owner] @ [owner..<owner + (length pads - owner)]"
      by (rule upt_add_eq_append) simp
    then have "[0..<length pads] = [0..<owner] @ [owner..<length pads]"
      using owner by simp
    then show ?thesis using owner by (simp add: upt_conv_Cons)
  qed
  have split: "calls = ?A @ ?call owner # ?B"
    unfolding calls by (subst idx) simp
  obtain OA oc OB where outs: "outs = OA @ oc # OB" and
      A: "list_all2 (client_ok s h) ?A OA" and c: "client_ok s h (?call owner) oc" and
      B: "list_all2 (client_ok s h) ?B OB"
    using all unfolding split by (auto simp: list_all2_append1 list_all2_Cons1)
  have lenA: "length OA = owner" using A by (auto dest: list_all2_lengthD)
  have o: "outs ! owner = oc" using outs lenA by (simp add: nth_append)
  have kA: "map (\<lambda>out. SetBytes_val s (snd out)) OA = map (\<lambda>i. kappa_plain s h (pads ! i)) [0..<owner]"
    using non_owner_kappas [OF A] by (simp add: o_def)
  have kB: "map (\<lambda>out. SetBytes_val s (snd out)) OB = map (\<lambda>i. kappa_plain s h (pads ! i)) [Suc owner..<length pads]"
    using non_owner_kappas [OF B] by (simp add: o_def)
  obtain k kb where k: "0 \<le> k" "k < order s" "Marshal_val s k = Some kb" "length kb \<in> {16, 24, 32}"
      "fst oc = Seal s kb (make_bytes 12) (payloads ! owner)"
      "SetBytes_val s (snd oc) = (k + kappa_plain s h (pads ! owner)) mod order s"
    using c by (auto simp: client_ok_def split: prod.splits)
  have pads: "map (kappa_plain s h) pads = map (\<lambda>i. kappa_plain s h (pads ! i)) [0..<length pads]"
    by (intro nth_equalityI) simp_all
  have "scalar_sum s (map snd outs) =
        (sum_list (map (\<lambda>i. kappa_plain s h (pads ! i)) [0..<owner]) +
         ((k + kappa_plain s h (pads ! owner)) mod order s +
          sum_list (map (\<lambda>i. kappa_plain s h (pads ! i)) [Suc owner..<length pads]))) mod order s"
  proof -
    have "map (SetBytes_val s) (map snd outs) =
          map (\<lambda>out. SetBytes_val s (snd out)) OA @ SetBytes_val s (snd oc) #
          map (\<lambda>out. SetBytes_val s (snd out)) OB"
      unfolding outs by simp
    then show ?thesis
      unfolding scalar_sum_def by (simp only: kA kB k(6) sum_list_append sum_list.Cons)
  qed
  also have "\<dots> = (k + (sum_list (map (\<lambda>i. kappa_plain s h (pads ! i)) [0..<owner]) +
         (kappa_plain s h (pads ! owner) +
          sum_list (map (\<lambda>i. kappa_plain s h (pads ! i)) [Suc owner..<length pads])))) mod order s"
  proof -
    have "(a + ((k + p) mod q + b)) mod q = (k + (a + (p + b))) mod q" for a p b q :: int
    proof -
      have "(a + ((k + p) mod q + b)) mod q = ((a + b) + (k + p) mod q) mod q"
        by (simp add: add.assoc add.commute)
      also have "\<dots> = ((a + b) + (k + p)) mod q"
        by (rule mod_add_right_eq)
      also have "(a + b) + (k + p) = k + (a + (p + b))" by simp
      finally show ?thesis .
    qed
    then show ?thesis .
  qed
  also have "\<dots> = (k + sum_list (map (kappa_plain s h) pads)) mod order s"
  proof -
    have "map (kappa_plain s h) pads =
          map (\<lambda>i. kappa_plain s h (pads ! i)) [0..<owner] @ kappa_plain s h (pads ! owner) #
          map (\<lambda>i. kappa_plain s h (pads ! i)) [Suc owner..<length pads]"
      by (subst pads, subst idx) simp
    then show ?thesis by (simp only: sum_list_append sum_list.Cons)
  qed
  finally have sum: "scalar_sum s (map snd outs) = (k + sum_list (map (kappa_plain s h) pads)) mod order s" .
  have seal: "fst (outs ! owner) = Seal s kb (make_bytes 12) (payloads ! owner)"
    using k(5) o by simp
  show ?thesis
    using k(1) k(2) k(3) k(4) seal sum by (intro exI [of _ k] exI [of _ kb] conjI)
qed

subsection \<open>The example suite\<close>

lemma length_le_bytes [simp]: "length (le_bytes n v) = n"
  by (induction n arbitrary: v) simp_all

lemma le_int_le_bytes: "le_int (le_bytes n v) = v mod 256 ^ n"
proof (induction n arbitrary: v)
  case 0
  then show ?case by simp
next
  case (Suc n)
  have "uint (word_of_int (v mod 256) :: byte) = v mod 256"
    by (simp add: uint_word_of_int take_bit_eq_mod)
  then have "le_int (le_bytes (Suc n) v) = v mod 256 + 256 * (v div 256 mod 256 ^ n)"
    by (simp add: Suc.IH)
  also have "\<dots> = v mod (256 * 256 ^ n)"
    using zmod_zmult2_eq [of "256 ^ n" v 256] by simp
  finally show ?case by simp
qed

lemma ed25519_order_bounds: "0 < ed25519_order" "ed25519_order < 256 ^ 32"
  by (simp_all add: ed25519_order_def)

lemma xor_bytes_cancel: "length a = length b \<Longrightarrow> xor_bytes (xor_bytes a b) b = a"
  by (induction a b rule: list_induct2) (simp_all add: xor_bytes_def xor.assoc)

lemma length_xor_bytes: "length (xor_bytes a b) = min (length a) (length b)"
  by (simp add: xor_bytes_def)

lemma length_keystream [simp]: "length (keystream key n) = n"
  by (simp add: keystream_def)

lemma example_Open_Seal: "example_Open key nonce (example_Seal key nonce x) = Some x"
  by (simp add: example_Open_def example_Seal_def example_tag_def Let_def
      length_xor_bytes xor_bytes_cancel)

lemma example_crypto_sound: "sound_crypto example_crypto"
proof -
  have marshal: "le_int (le_bytes 32 v) mod ed25519_order = v"
    if "0 \<le> v" "v < ed25519_order" for v
  proof -
    have "v mod 256 ^ 32 = v" using that ed25519_order_bounds by simp
    then show ?thesis using that by (simp add: le_int_le_bytes)
  qed
  show ?thesis
    unfolding sound_crypto_def example_crypto_def
    using ed25519_order_bounds(1) by (simp add: marshal example_Open_Seal)
qed

lemma valid_example_state: "valid example_state"
  by (simp add: valid_def example_state_def NewEquivocation_def Scalar_def One_def put_def)


subsection \<open>An honest round\<close>

text \<open>
  Claim C1. In an honest round on one state with history \<open>h\<close>, where the slot owner's
  ciphertext and kappa come from \<^const>\<open>ClientEncryptPayload\<close> with the flag set, every
  other client's kappa from \<^const>\<open>ClientEncryptPayload\<close> without it, and every trustee's
  contribution from \<^const>\<open>TrusteeGetContribution\<close> on the matching pads,
  \<^const>\<open>RelayDecode\<close> returns the payload of the slot owner. The libraries are assumed
  sound (\<^const>\<open>sound_crypto\<close>) and the history allocated (\<^const>\<open>valid\<close>); every call
  of the round then returns, so the round as a whole returns the payload.
\<close>

theorem honest_round_decodes:
  assumes s: "sound_crypto s" and v: "valid e"
    and owner: "owner < length pads"
    and payloads: "length payloads = length pads"
    and rows: "\<forall>p_i\<in>set pads. length p_i = m"
  shows "fst (honest_round s owner payloads pads m e) = Inr (payloads ! owner)"
proof -
  let ?h = "get (history e) e"
  let ?calls = "map (\<lambda>i. (i = owner, payloads ! i, pads ! i)) [0..<length pads]"
  let ?cols = "map (\<lambda>j. map (\<lambda>p_i. p_i ! j) pads) [0..<m]"
  obtain outs e1 where c: "clients_encrypt s ?calls e = (Inr outs, e1)" and g1: "grows e e1"
      and ok: "list_all2 (client_ok s ?h) ?calls outs"
    using clients_encrypt_ok [OF s v] by blast
  obtain sigmas e2 where t: "trustees_contribute s ?cols e1 = (Inr sigmas, e2)"
      and g2: "grows e1 e2"
      and sg: "map (SetBytes_val s) sigmas = map (scalar_sum s) ?cols"
    using trustees_contribute_ok [OF s] by blast
  have v1: "valid e1" by (rule grows_valid [OF g1 v])
  have v2: "valid e2" by (rule grows_valid [OF g2 v1])
  have h2: "get (history e2) e2 = ?h"
    using grows_history [OF g2 v1] grows_history [OF g1 v] by simp
  obtain k k_i_bytes where k: "0 \<le> k" "k < order s" and kb: "Marshal_val s k = Some k_i_bytes"
      and len: "length k_i_bytes \<in> {16, 24, 32}"
      and x': "fst (outs ! owner) = Seal s k_i_bytes (make_bytes 12) (payloads ! owner)"
      and sum: "scalar_sum s (map snd outs) = (k + sum_list (map (kappa_plain s ?h) pads)) mod order s"
    using one_owner_kappas [OF ok refl owner] by blast
  have key: "relay_key s ?h sigmas (map snd outs) = k"
    by (rule relay_key_recovers [OF k sum trustee_sum [OF rows sg]])
  have "fst (honest_round s owner payloads pads m e) =
        fst (RelayDecode s (fst (outs ! owner)) sigmas (map snd outs) e2)"
    by (simp add: honest_round_def c t)
  also have "\<dots> = relay_result s (fst (outs ! owner)) k"
    by (simp add: RelayDecode_eq [OF v2] h2 key)
  also have "\<dots> = Inr (payloads ! owner)"
    using len by (auto simp: relay_result_def kb x' sound_open [OF s])
  finally show ?thesis .
qed


theorem honest_round_decodes_witness:
  "fst (honest_round example_crypto 1 example_payloads example_pads 2 example_state) =
     Inr [222, 173, 190, 239]"
  using honest_round_decodes [OF example_crypto_sound valid_example_state,
      of 1 example_pads example_payloads 2]
  by (simp add: example_pads_def example_payloads_def)

subsection \<open>Facts about the example state and suite\<close>

lemma history_example_state: "get (history example_state) example_state = 1"
  by (simp add: example_state_def NewEquivocation_def Scalar_def One_def put_def get_def)

lemma example_marshal: "Marshal_val example_crypto v = Some (le_bytes 32 v)"
  by (simp add: example_crypto_def)

lemma UpdateHistory_spec_value:
  "valid e \<Longrightarrow> Marshal_val s (get (history e) e) = Some historyB \<Longrightarrow>
   get (history e) (snd (UpdateHistory_spec s data e)) = SetBytes_val s (Sum256 s (historyB @ data))"
  by (simp add: UpdateHistory_spec_def MarshalBinary_def SetBytes_def put_def get_def valid_def)

lemma checksum_range: "0 \<le> checksum b \<and> checksum b < 256 ^ 32"
proof (induction b rule: rev_induct)
  case Nil
  then show ?case by (simp add: checksum_def)
next
  case (snoc x xs)
  have "checksum (xs @ [x]) = (checksum xs * 257 + uint x + 1) mod 2 ^ 256"
    by (simp add: checksum_def)
  moreover have "(2::int) ^ 256 = 256 ^ 32" by simp
  ultimately show ?case by simp
qed

lemma example_hash_value:
  "SetBytes_val example_crypto (Sum256 example_crypto b) = checksum b mod ed25519_order"
proof -
  have "checksum b mod 256 ^ 32 = checksum b" using checksum_range [of b] by simp
  then show ?thesis by (simp add: example_crypto_def le_int_le_bytes)
qed

subsection \<open>A client that does not own the slot\<close>

text \<open>
  Claim C3. For every payload \<open>x\<close> and every list of pads \<open>p_j\<close>,
  \<^const>\<open>ClientEncryptPayload\<close> without the slot-owner flag returns \<open>x\<close> unchanged,
  together with the marshalled bytes of \<open>\<kappa> = h \<cdot> \<sigma>\<close>, where \<open>h\<close> is the history and
  \<open>\<sigma>\<close> the scalar sum of the hashed pads (\<^const>\<open>scalar_sum\<close>); the only other outcome is
  \<^verbatim>\<open>log.Fatal\<close> when the library fails to marshal \<open>\<kappa>\<close>.
\<close>

theorem ClientEncryptPayload_not_owner:
  assumes "valid e"
  shows "fst (ClientEncryptPayload s False x p_j e) =
     (case Marshal_val s ((get (history e) e * scalar_sum s p_j) mod order s) of
        None \<Rightarrow> Inl LogFatal
      | Some kappa_i_bytes \<Rightarrow> Inr (x, kappa_i_bytes))"
  by (simp add: ClientEncryptPayload_not_owner_eq [OF assms] kappa_plain_def mult.commute)

theorem ClientEncryptPayload_not_owner_witness:
  "valid example_state \<and>
   scalar_sum example_crypto [[11, 12], [13]] = 3096 \<and>
   fst (ClientEncryptPayload example_crypto False [0, 0, 0, 0] [[11, 12], [13]] example_state) =
     Inr ([0, 0, 0, 0], 24 # 12 # replicate 30 0)"
proof -
  have h: "get (history example_state) example_state = 1"
    by (simp add: example_state_def NewEquivocation_def Scalar_def One_def put_def get_def)
  have sum: "scalar_sum example_crypto [[11, 12], [13]] = 3096"
    by (simp add: scalar_sum_def example_crypto_def ed25519_order_def)
  have lb: "le_bytes 32 3096 = 24 # 12 # replicate 30 0"
    by code_simp
  have m: "Marshal_val example_crypto (3096 mod order example_crypto) = Some (24 # 12 # replicate 30 0)"
    by (simp add: example_crypto_def ed25519_order_def lb)
  show ?thesis
    using ClientEncryptPayload_not_owner [OF valid_example_state,
        of example_crypto "[0, 0, 0, 0]" "[[11, 12], [13]]"]
    by (simp add: valid_example_state h sum m)
qed

subsection \<open>The history is written by \<^const>\<open>UpdateHistory\<close> only\<close>

lemma grows_same_history: "grows e e' \<Longrightarrow> valid e \<Longrightarrow> same_history e e'"
  using grows_history [of e e'] by (simp add: grows_def same_history_def)

lemma randomScalar_grows: "grows e (snd (randomScalar s e))"
  by (simp add: randomScalar_eq grows_def)

lemma hashInGroup_grows: "grows e (snd (hashInGroup s data e))"
  by (simp add: hashInGroup_eq grows_def)

lemma UpdateHistory_value:
  "valid e \<Longrightarrow> Marshal_val s (get (history e) e) = Some historyB \<Longrightarrow>
   get (history e) (snd (UpdateHistory s data e)) =
     SetBytes_val s (Sum256 s (replicate (length historyB + length data) 0))"
  by (simp add: UpdateHistory_def MarshalBinary_def make_bytes_def SetBytes_def put_def get_def
      valid_def)

text \<open>
  Claim C9. \<^const>\<open>ClientEncryptPayload\<close>, \<^const>\<open>TrusteeGetContribution\<close> and
  \<^const>\<open>RelayDecode\<close> leave the history unchanged, for every state whose history is
  allocated and for all inputs: after each of them the structure points to the same
  history scalar and that scalar has the value it had. The same holds for the other
  methods of the structure apart from \<^const>\<open>UpdateHistory\<close>: \<^const>\<open>randomScalar\<close>,
  \<^const>\<open>hashInGroup\<close>, \<^const>\<open>ClientProve\<close> and \<^const>\<open>TrusteeProve\<close>.
\<close>

theorem history_unchanged:
  assumes "valid e"
  shows "same_history e (snd (ClientEncryptPayload s slotOwner x p_j e)) \<and>
         same_history e (snd (TrusteeGetContribution s s_i e)) \<and>
         same_history e
           (snd (RelayDecode s encryptedPayload trusteesContributions clientsContributions e)) \<and>
         same_history e (snd (randomScalar s e)) \<and>
         same_history e (snd (hashInGroup s data e)) \<and>
         same_history e (snd (ClientProve e)) \<and>
         same_history e (snd (TrusteeProve e))"
proof (intro conjI)
  show "same_history e (snd (ClientEncryptPayload s slotOwner x p_j e))"
    by (rule grows_same_history [OF ClientEncryptPayload_grows [OF assms] assms])
  show "same_history e (snd (TrusteeGetContribution s s_i e))"
    by (rule grows_same_history [OF TrusteeGetContribution_grows assms])
  show "same_history e
          (snd (RelayDecode s encryptedPayload trusteesContributions clientsContributions e))"
    by (rule grows_same_history [OF RelayDecode_grows [OF assms] assms])
  show "same_history e (snd (randomScalar s e))"
    by (rule grows_same_history [OF randomScalar_grows assms])
  show "same_history e (snd (hashInGroup s data e))"
    by (rule grows_same_history [OF hashInGroup_grows assms])
  show "same_history e (snd (ClientProve e))"
    by (simp add: ClientProve_def same_history_def)
  show "same_history e (snd (TrusteeProve e))"
    by (simp add: TrusteeProve_def same_history_def)
qed

theorem history_unchanged_witness:
  "valid example_state \<and>
   get (history example_state) example_state = 1 \<and>
   get (history (snd (ClientEncryptPayload example_crypto True [222, 173, 190, 239] [[21], [22, 23, 24]] example_state)))
       (snd (ClientEncryptPayload example_crypto True [222, 173, 190, 239] [[21], [22, 23, 24]] example_state)) = 1 \<and>
   get (history (snd (TrusteeGetContribution example_crypto [[11, 12], [21]] example_state)))
       (snd (TrusteeGetContribution example_crypto [[11, 12], [21]] example_state)) = 1 \<and>
   get (history (snd (RelayDecode example_crypto (replicate 17 0) [] [] example_state)))
       (snd (RelayDecode example_crypto (replicate 17 0) [] [] example_state)) = 1 \<and>
   get (history example_state) (snd (UpdateHistory example_crypto [1] example_state)) =
     5792920715253435378559243112830954699911886882697731670171595253227495837518"
proof -
  note t = history_unchanged [OF valid_example_state, of example_crypto True "[222, 173, 190, 239]"
      "[[21], [22, 23, 24]]" "[[11, 12], [21]]" "replicate 17 0" "[]" "[]" "[]",
      unfolded same_history_def history_example_state]
  have m: "Marshal_val example_crypto (get (history example_state) example_state) = Some (le_bytes 32 1)"
    by (simp add: example_marshal history_example_state)
  have c: "checksum (replicate 33 0) =
      20266931869917959806505616238916943181626119601457546882175497129798404339496"
    by code_simp
  have u: "get (history example_state) (snd (UpdateHistory example_crypto [1] example_state)) =
     5792920715253435378559243112830954699911886882697731670171595253227495837518"
    by (simp add: UpdateHistory_value [OF valid_example_state m] example_hash_value c
        ed25519_order_def)
  show ?thesis
    using t valid_example_state history_example_state u by blast
qed

subsection \<open>A new structure\<close>

text \<open>
  Claim C7. The history of a structure that \<^const>\<open>NewEquivocation\<close> has just created is a
  newly allocated scalar of value one, the multiplicative identity of the scalars:
  multiplying any scalar by it gives that scalar, reduced modulo the order. No scalar
  that existed before is changed.
\<close>

theorem NewEquivocation_history_one:
  "(let e = NewEquivocation s store randomKey in
      valid e \<and> history e = length store \<and> get (history e) e = 1 \<and>
      take (length store) (scalars e) = store \<and>
      (\<forall>r a. r < length (scalars e) \<longrightarrow>
         get r (Mul s r a (history e) e) = get a e mod order s))"
  by (simp add: NewEquivocation_def Scalar_def One_def put_def get_def valid_def Mul_def
      Let_def)

theorem NewEquivocation_history_one_witness:
  "get (history example_state) example_state = 1 \<and>
   get 0 (Mul example_crypto 0 0 (history example_state) example_state) = 1"
proof -
  have q: "(1::int) mod order example_crypto = 1"
    by (simp add: example_crypto_def ed25519_order_def)
  have l: "0 < length (scalars example_state)"
    using valid_example_state unfolding valid_def by linarith
  note t = NewEquivocation_history_one [of example_crypto "[]" "[1, 2, 3]",
      unfolded Let_def, folded example_state_def]
  from t have h: "history example_state = 0" by simp
  from t have one: "get (history example_state) example_state = 1" by blast
  from t l have "get 0 (Mul example_crypto 0 0 (history example_state) example_state) =
      get 0 example_state mod order example_crypto" by blast
  with one h q show ?thesis by simp
qed

subsection \<open>What \<^const>\<open>UpdateHistory\<close> hashes\<close>

text \<open>
  Claim C2 says that \<^const>\<open>UpdateHistory\<close> sets the history to the hash of the marshalled
  history followed by the data. The code hashes a buffer of that length that holds only
  zero bytes: the new history is the hash of \<open>length historyB + length data\<close> zero bytes,
  and two byte strings of the same length give the same new state.
\<close>

theorem UpdateHistory_hashes_zeros:
  assumes "valid e" and "Marshal_val s (get (history e) e) = Some historyB"
  shows "get (history e) (snd (UpdateHistory s data e)) =
           SetBytes_val s (Sum256 s (replicate (length historyB + length data) 0)) \<and>
         (\<forall>data'. length data' = length data \<longrightarrow>
            UpdateHistory s data' e = UpdateHistory s data e)"
  using assms
  by (simp add: UpdateHistory_def MarshalBinary_def make_bytes_def SetBytes_def put_def get_def
      valid_def)

theorem UpdateHistory_hashes_zeros_witness:
  "UpdateHistory example_crypto [2] example_state = UpdateHistory example_crypto [1] example_state \<and>
   get (history example_state) (snd (UpdateHistory example_crypto [1] example_state)) =
     SetBytes_val example_crypto (Sum256 example_crypto (replicate 33 0)) \<and>
   get (history example_state) (snd (UpdateHistory_spec example_crypto [2] example_state)) \<noteq>
   get (history example_state) (snd (UpdateHistory_spec example_crypto [1] example_state))"
proof -
  have m: "Marshal_val example_crypto (get (history example_state) example_state) = Some (le_bytes 32 1)"
    by (simp add: example_marshal history_example_state)
  note t = UpdateHistory_hashes_zeros [OF valid_example_state m, of "[1]"]
  have a: "UpdateHistory example_crypto [2] example_state =
      UpdateHistory example_crypto [1] example_state"
    by (rule t [THEN conjunct2, rule_format]) simp
  have b: "get (history example_state) (snd (UpdateHistory example_crypto [1] example_state)) =
     SetBytes_val example_crypto (Sum256 example_crypto (replicate 33 0))"
    using t [THEN conjunct1] by simp
  have c: "get (history example_state) (snd (UpdateHistory_spec example_crypto [2] example_state)) \<noteq>
   get (history example_state) (snd (UpdateHistory_spec example_crypto [1] example_state))"
  proof -
    have c2: "checksum (le_bytes 32 1 @ [2]) =
        35652522895904048774000932033682395087418671610710694687036967242973890942763"
      by code_simp
    have c1: "checksum (le_bytes 32 1 @ [1]) =
        35652522895904048774000932033682395087418671610710694687036967242973890942762"
      by code_simp
    show ?thesis
      by (simp add: UpdateHistory_spec_value [OF valid_example_state m] example_hash_value c1 c2
          ed25519_order_def)
  qed
  show ?thesis using a b c by blast
qed

subsection \<open>A ciphertext that does not authenticate\<close>

text \<open>
  Claim C5 says that on an authentication failure the payload is discarded and the
  round flagged as disrupted. The code has no flag: when \<^verbatim>\<open>Open\<close> returns an error,
  \<^const>\<open>RelayDecode\<close> returns as its message as many zero bytes as the ciphertext has
  beyond its 16-byte tag, and panics when the ciphertext is shorter than the tag.
\<close>

theorem RelayDecode_auth_failure:
  assumes "valid e"
    and "Marshal_val s (relay_key s (get (history e) e) trusteesContributions clientsContributions)
           = Some k_bytes"
    and "length k_bytes \<in> {16, 24, 32}"
    and "Open s k_bytes (make_bytes 12) encryptedPayload = None"
  shows "fst (RelayDecode s encryptedPayload trusteesContributions clientsContributions e) =
           (if length encryptedPayload < 16 then Inl Panic
            else Inr (replicate (length encryptedPayload - 16) 0))"
  using assms(2-4)
  by (auto simp: RelayDecode_eq [OF assms(1)] relay_result_def make_bytes_def)

theorem RelayDecode_auth_failure_witness:
  "fst (RelayDecode example_crypto (replicate 17 0) [] [] example_state) = Inr [0] \<and>
   fst (RelayDecode example_crypto [] [] [] example_state) = Inl Panic"
proof -
  have k: "relay_key example_crypto (get (history example_state) example_state) [] [] = 0"
    by (simp add: relay_key_def scalar_sum_def)
  have m: "Marshal_val example_crypto
      (relay_key example_crypto (get (history example_state) example_state) [] []) = Some (le_bytes 32 0)"
    by (simp add: k example_marshal)
  have l: "length (le_bytes 32 0) \<in> {16, 24, 32}" by simp
  have o1: "Open example_crypto (le_bytes 32 0) (make_bytes 12) (replicate 17 0) = None"
    by code_simp
  have o2: "Open example_crypto (le_bytes 32 0) (make_bytes 12) [] = None"
    by code_simp
  show ?thesis
    using RelayDecode_auth_failure [OF valid_example_state m l o1]
      RelayDecode_auth_failure [OF valid_example_state m l o2]
    by simp
qed

section \<open>Proofs: the trustee's connection handler\<close>

subsection \<open>The protocol version\<close>

lemma leading_bytes:
  "4 \<le> length received \<Longrightarrow> slice (read_into (make_bytes 1024) received) 0 4 = take 4 received"
  by (simp add: slice_def read_into_def make_bytes_def Let_def min_def)

lemma Uint32_take: "Uint32 (take 4 b) = Uint32 b"
  by (simp add: Uint32_def)

lemma handleConnection_mismatch:
  "int (unat (Uint32 (slice (read_into (make_bytes 1024) received1) 0 4))) \<noteq> LLD_PROTOCOL_VERSION env \<Longrightarrow>
   handleConnection env (Some received1) clientsPublicKeys read2 write_ok = ([Close], Returned)"
  by (simp add: handleConnection_def Let_def)

lemma handleConnection_match:
  assumes "int (unat (Uint32 (slice (read_into (make_bytes 1024) received1) 0 4))) = LLD_PROTOCOL_VERSION env"
  shows "\<exists>pk rest. fst (handleConnection env (Some received1) clientsPublicKeys read2 write_ok) =
           TellPublicKey (LLD_PROTOCOL_VERSION env) pk # ReadPublicKeys # rest"
  using assms
  by (auto simp: handleConnection_def Let_def split: option.splits)

text \<open>
  Claim C6. For every first frame whose leading big-endian 32-bit protocol version
  differs from \<^verbatim>\<open>LLD_PROTOCOL_VERSION\<close>, the handler closes the connection and returns:
  it tells no public key, reads no client keys and does nothing else on the connection,
  whatever the peer would have sent next.
\<close>

theorem version_mismatch_closes:
  assumes "4 \<le> length received1"
    and "int (unat (Uint32 received1)) \<noteq> LLD_PROTOCOL_VERSION env"
  shows "handleConnection env (Some received1) clientsPublicKeys read2 write_ok = ([Close], Returned)"
proof (rule handleConnection_mismatch)
  show "int (unat (Uint32 (slice (read_into (make_bytes 1024) received1) 0 4))) \<noteq> LLD_PROTOCOL_VERSION env"
    using assms by (simp add: leading_bytes Uint32_take)
qed

theorem version_mismatch_closes_witness:
  "handleConnection example_env (Some old_handshake) [2, 3] (Some example_request) True =
     ([Close], Returned) \<and>
   fst (handleConnection example_env (Some example_handshake) [2, 3] (Some example_request) True)
     \<noteq> [Close]"
proof -
  have l: "4 \<le> length old_handshake" by (simp add: old_handshake_def)
  have v: "int (unat (Uint32 old_handshake)) \<noteq> LLD_PROTOCOL_VERSION example_env"
    by (simp add: old_handshake_def Uint32_def example_env_def)
  have l': "4 \<le> length example_handshake" by (simp add: example_handshake_def)
  have "int (unat (Uint32 (slice (read_into (make_bytes 1024) example_handshake) 0 4))) =
        LLD_PROTOCOL_VERSION example_env"
    by (simp add: leading_bytes [OF l'] Uint32_take)
      (simp add: example_handshake_def Uint32_def example_env_def)
  from handleConnection_match [OF this, of "[2, 3]" "Some example_request" True]
  have "fst (handleConnection example_env (Some example_handshake) [2, 3] (Some example_request) True)
     \<noteq> [Close]"
    by auto
  then show ?thesis
    using version_mismatch_closes [OF l v, of "[2, 3]" "Some example_request" True] by simp
qed

subsection \<open>The shuffle reply\<close>

text \<open>
  Claim C4 says that the trustee answers a shuffle request with the base raised to a
  random secret, the keys permuted and raised to that secret, and a proof of the
  shuffle. In the code the reply is determined by the request alone: its base field is
  the marshalled base of the request, its keys field the marshalled keys of the request
  in their order, and its proof field 50 zero bytes.
\<close>

theorem shuffle_message_copies_request:
  assumes "shuffle_message env buffer = Some message"
  shows "\<exists>base keys base2Bytes keys2Bytes.
           Point_UnmarshalBinary env (fst (parse_frame buffer)) = Some base \<and>
           UnMarshalPublicKeyArrayFromByteArray env (fst (snd (parse_frame buffer))) = Some keys \<and>
           Point_MarshalBinary env base = Some base2Bytes \<and>
           MarshalPublicKeyArrayToByteArray env keys = Some keys2Bytes \<and>
           message = PutUint32 (of_nat (length base2Bytes)) @ base2Bytes @
                     PutUint32 (of_nat (length keys2Bytes)) @ keys2Bytes @
                     PutUint32 50 @ replicate 50 0"
  using assms
  by (auto simp: shuffle_message_def parse_frame_def Let_def make_bytes_def
      split: if_splits option.splits)

theorem shuffle_message_copies_request_witness:
  "shuffle_message example_env example_request =
     Some ([0, 0, 0, 1, 4, 0, 0, 0, 2, 16, 18, 0, 0, 0, 50] @ replicate 50 0) \<and>
   fst (parse_frame example_request) = [4] \<and>
   fst (snd (parse_frame example_request)) = [16, 18] \<and>
   spec_shuffle example_env 2 [1, 0] (4, [16, 18]) = (16, [2, 3])"
proof -
  have rq: "fst (parse_frame example_request) = [4]"
      "fst (snd (parse_frame example_request)) = [16, 18]"
    by code_simp+
  have ev: "shuffle_message example_env example_request =
      Some ([0, 0, 0, 1, 4, 0, 0, 0, 2, 16, 18, 0, 0, 0, 50] @ replicate 50 0)"
    by code_simp
  have sp: "spec_shuffle example_env 2 [1, 0] (4, [16, 18]) = (16, [2, 3])"
    by code_simp
  from shuffle_message_copies_request [OF ev] ev sp rq show ?thesis by blast
qed

end
